theory Spec2Isabelle
  imports Main "HOL-Library.Word"
begin

unbundle bit_operations_syntax

section \<open>Machine integers, faults and Go slices\<close>

type_synonym byte = "8 word"
type_synonym uint16 = "16 word"
type_synonym uint64 = "64 word"

text \<open>
  A run of the node codec either returns or panics. The two panics of \<open>BTree.go\<close> are a
  failed \<open>assert\<close> and the Go runtime's bounds check on an index or slice expression.
\<close>

datatype fault = AssertionFailed | OutOfRange

definition andThen :: "fault + 'a \<Rightarrow> ('a \<Rightarrow> fault + 'b) \<Rightarrow> fault + 'b" where
  "andThen m f = (case m of Inl e \<Rightarrow> Inl e | Inr x \<Rightarrow> f x)"

text \<open>
  A Go slice \<open>[]byte\<close> is a window on an array: \<open>elems\<close> are the \<open>len\<close> bytes the slice
  shows, \<open>room\<close> the bytes of the array between its length and its capacity. A slice
  expression may reach into \<open>room\<close>, an index expression may not.
\<close>

record slice =
  elems :: "byte list"
  room :: "byte list"

definition backing :: "slice \<Rightarrow> byte list" where
  "backing s = elems s @ room s"

definition len :: "slice \<Rightarrow> nat" where
  "len s = length (elems s)"

definition cap :: "slice \<Rightarrow> nat" where
  "cap s = length (elems s) + length (room s)"

text \<open>\<open>s[lo:]\<close> panics unless \<open>lo \<le> len(s)\<close>.\<close>

definition slice_from :: "slice \<Rightarrow> nat \<Rightarrow> fault + slice" where
  "slice_from s lo =
     (if lo \<le> len s then Inr \<lparr>elems = drop lo (elems s), room = room s\<rparr>
      else Inl OutOfRange)"

text \<open>\<open>s[:hi]\<close> panics unless \<open>hi \<le> cap(s)\<close>.\<close>

definition slice_upto :: "slice \<Rightarrow> nat \<Rightarrow> fault + slice" where
  "slice_upto s hi =
     (if hi \<le> cap s then Inr \<lparr>elems = take hi (backing s), room = drop hi (backing s)\<rparr>
      else Inl OutOfRange)"

text \<open>\<open>s[lo:hi]\<close> panics unless \<open>lo \<le> hi \<le> cap(s)\<close>.\<close>

definition slice_range :: "slice \<Rightarrow> nat \<Rightarrow> nat \<Rightarrow> fault + slice" where
  "slice_range s lo hi =
     (if lo \<le> hi \<and> hi \<le> cap s
      then Inr \<lparr>elems = take (hi - lo) (drop lo (backing s)), room = drop hi (backing s)\<rparr>
      else Inl OutOfRange)"

text \<open>
  A sub-slice shares the array of the slice it was cut from, so a store through the
  sub-slice shows in the slice. \<open>through s lo t\<close> is \<open>s\<close> once its sub-slice starting at
  index \<open>lo\<close> has become \<open>t\<close>.
\<close>

definition through :: "slice \<Rightarrow> nat \<Rightarrow> slice \<Rightarrow> slice" where
  "through s lo t =
     (let b = take lo (backing s) @ backing t
      in \<lparr>elems = take (len s) b, room = drop (len s) b\<rparr>)"

subsection \<open>\<open>encoding/binary\<close>, little-endian\<close>

text \<open>
  The four functions of Go's standard library that the codec calls. Each starts with a
  bounds check of the last byte it touches (\<open>_ = b[1]\<close>, \<open>_ = b[7]\<close>).
\<close>

definition Uint16 :: "slice \<Rightarrow> fault + uint16" where
  "Uint16 b =
     (if 1 < len b
      then Inr (ucast (elems b ! 0) OR push_bit 8 (ucast (elems b ! 1)))
      else Inl OutOfRange)"

definition PutUint16 :: "slice \<Rightarrow> uint16 \<Rightarrow> fault + slice" where
  "PutUint16 b v =
     (if 1 < len b
      then Inr (b\<lparr>elems := (elems b)[0 := ucast v, 1 := ucast (drop_bit 8 v)]\<rparr>)
      else Inl OutOfRange)"

definition Uint64 :: "slice \<Rightarrow> fault + uint64" where
  "Uint64 b =
     (if 7 < len b
      then Inr (((((((ucast (elems b ! 0) OR push_bit 8 (ucast (elems b ! 1)))
             OR push_bit 16 (ucast (elems b ! 2))) OR push_bit 24 (ucast (elems b ! 3)))
             OR push_bit 32 (ucast (elems b ! 4))) OR push_bit 40 (ucast (elems b ! 5)))
             OR push_bit 48 (ucast (elems b ! 6))) OR push_bit 56 (ucast (elems b ! 7)))
      else Inl OutOfRange)"

definition PutUint64 :: "slice \<Rightarrow> uint64 \<Rightarrow> fault + slice" where
  "PutUint64 b v =
     (if 7 < len b
      then Inr (b\<lparr>elems := (elems b)
             [0 := ucast v, 1 := ucast (drop_bit 8 v),
              2 := ucast (drop_bit 16 v), 3 := ucast (drop_bit 24 v),
              4 := ucast (drop_bit 32 v), 5 := ucast (drop_bit 40 v),
              6 := ucast (drop_bit 48 v), 7 := ucast (drop_bit 56 v)]\<rparr>)
      else Inl OutOfRange)"

section \<open>The node codec of \<open>BTree.go\<close>\<close>

definition BNODE_NODE :: uint16 where "BNODE_NODE = 1"
definition BNODE_LEAF :: uint16 where "BNODE_LEAF = 2"
definition HEADER :: uint16 where "HEADER = 4"
definition BTREE_PAGE_SIZE :: nat where "BTREE_PAGE_SIZE = 4096"
definition BTREE_MAX_KEY_SIZE :: nat where "BTREE_MAX_KEY_SIZE = 1000"
definition BTREE_MAX_VAL_SIZE :: nat where "BTREE_MAX_VAL_SIZE = 3000"

record BNode =
  data :: slice

text \<open>
  Modelled from the spec: \<open>assert\<close>, which \<open>BTree.go\<close> calls and does not define. The
  spec has the codec fault at once on an index out of range and names run-time assertions
  as the means, so a false condition is a panic and a true one does nothing.
\<close>

definition assert :: "bool \<Rightarrow> fault + unit" where
  "assert c = (if c then Inr () else Inl AssertionFailed)"

definition btype :: "BNode \<Rightarrow> fault + uint16" where
  "btype node = Uint16 (data node)"

definition nkeys :: "BNode \<Rightarrow> fault + uint16" where
  "nkeys node = andThen (slice_range (data node) 2 4) Uint16"

definition setHeader :: "BNode \<Rightarrow> uint16 \<Rightarrow> uint16 \<Rightarrow> fault + BNode" where
  "setHeader node bt nk =
     andThen (slice_range (data node) 0 2) (\<lambda>b.
     andThen (PutUint16 b bt) (\<lambda>b'.
     let d = through (data node) 0 b' in
     andThen (slice_range d 2 4) (\<lambda>c.
     andThen (PutUint16 c nk) (\<lambda>c'.
     Inr (node\<lparr>data := through d 2 c'\<rparr>)))))"

definition getPtr :: "BNode \<Rightarrow> uint16 \<Rightarrow> fault + uint64" where
  "getPtr node idx =
     andThen (nkeys node) (\<lambda>n.
     andThen (assert (idx < n)) (\<lambda>_.
     let pos = HEADER + 8 * idx in
     andThen (slice_from (data node) (unat pos)) Uint64))"

definition setPtr :: "BNode \<Rightarrow> uint16 \<Rightarrow> uint64 \<Rightarrow> fault + BNode" where
  "setPtr node idx val =
     andThen (nkeys node) (\<lambda>n.
     andThen (assert (idx < n)) (\<lambda>_.
     let pos = HEADER + 8 * idx in
     andThen (slice_from (data node) (unat pos)) (\<lambda>b.
     andThen (PutUint64 b val) (\<lambda>b'.
     Inr (node\<lparr>data := through (data node) (unat pos) b'\<rparr>)))))"

text \<open>
  \<open>1 <= idx && idx <= node.nkeys()\<close> does not read the header when \<open>idx\<close> is 0.
\<close>

definition offsetPos :: "BNode \<Rightarrow> uint16 \<Rightarrow> fault + uint16" where
  "offsetPos node idx =
     andThen (if 1 \<le> idx then andThen (nkeys node) (\<lambda>n. Inr (idx \<le> n)) else Inr False) (\<lambda>c.
     andThen (assert c) (\<lambda>_.
     andThen (nkeys node) (\<lambda>n.
     Inr (HEADER + 8 * n + 2 * (idx - 1)))))"

definition getOffset :: "BNode \<Rightarrow> uint16 \<Rightarrow> fault + uint16" where
  "getOffset node idx =
     (if idx = 0 then Inr 0
      else andThen (offsetPos node idx) (\<lambda>p.
           andThen (slice_from (data node) (unat p)) Uint16))"

definition kvPos :: "BNode \<Rightarrow> uint16 \<Rightarrow> fault + uint16" where
  "kvPos node idx =
     andThen (nkeys node) (\<lambda>n.
     andThen (assert (idx \<le> n)) (\<lambda>_.
     andThen (nkeys node) (\<lambda>n1.
     andThen (nkeys node) (\<lambda>n2.
     andThen (getOffset node idx) (\<lambda>off.
     Inr (HEADER + 8 * n1 + 2 * n2 + off))))))"

definition getKey :: "BNode \<Rightarrow> uint16 \<Rightarrow> fault + slice" where
  "getKey node idx =
     andThen (nkeys node) (\<lambda>n.
     andThen (assert (idx < n)) (\<lambda>_.
     andThen (kvPos node idx) (\<lambda>pos.
     andThen (andThen (slice_from (data node) (unat pos)) Uint16) (\<lambda>klen.
     andThen (slice_from (data node) (unat (pos + 4))) (\<lambda>s.
     slice_upto s (unat klen))))))"

definition getVal :: "BNode \<Rightarrow> uint16 \<Rightarrow> fault + slice" where
  "getVal node idx =
     andThen (nkeys node) (\<lambda>n.
     andThen (assert (idx < n)) (\<lambda>_.
     andThen (kvPos node idx) (\<lambda>pos.
     andThen (andThen (slice_from (data node) (unat pos)) Uint16) (\<lambda>klen.
     andThen (andThen (slice_from (data node) (unat (pos + 2))) Uint16) (\<lambda>vlen.
     andThen (slice_from (data node) (unat (pos + 4 + klen))) (\<lambda>s.
     slice_upto s (unat vlen)))))))"

definition nbytes :: "BNode \<Rightarrow> fault + uint16" where
  "nbytes node = andThen (nkeys node) (kvPos node)"

text \<open>
  The tree as \<open>BTree.go\<close> declares it: a page number and three callbacks. No function of
  the source uses it. The callbacks are Go closures on a page store; here the store is
  passed to them and handed back, as a state \<open>'s\<close>.
\<close>

record 's BTree =
  root :: uint64
  get :: "'s \<Rightarrow> uint64 \<Rightarrow> BNode"
  new :: "'s \<Rightarrow> BNode \<Rightarrow> uint64 \<times> 's"
  del :: "'s \<Rightarrow> uint64 \<Rightarrow> 's"

section \<open>Vocabulary of the statements\<close>

text \<open>
  The value of a byte string read little-endian, least significant byte first, and the
  \<open>k\<close> bytes that write a number so.
\<close>

fun le_val :: "byte list \<Rightarrow> nat" where
  "le_val [] = 0"
| "le_val (b # bs) = unat b + 256 * le_val bs"

fun le_bytes :: "nat \<Rightarrow> nat \<Rightarrow> byte list" where
  "le_bytes 0 x = []"
| "le_bytes (Suc k) x = of_nat x # le_bytes k (x div 256)"

text \<open>The bytes \<open>PutUint16\<close> and \<open>PutUint64\<close> store, in the order they store them.\<close>

definition bytes16 :: "uint16 \<Rightarrow> byte list" where
  "bytes16 v = [ucast v, ucast (drop_bit 8 v)]"

definition bytes64 :: "uint64 \<Rightarrow> byte list" where
  "bytes64 v = [ucast v, ucast (drop_bit 8 v), ucast (drop_bit 16 v), ucast (drop_bit 24 v),
     ucast (drop_bit 32 v), ucast (drop_bit 40 v), ucast (drop_bit 48 v), ucast (drop_bit 56 v)]"

text \<open>The \<open>k\<close> bytes at position \<open>p\<close> of the array under \<open>node.data\<close>.\<close>

definition bytes_at :: "BNode \<Rightarrow> nat \<Rightarrow> nat \<Rightarrow> byte list" where
  "bytes_at node p k = take k (drop p (backing (data node)))"

text \<open>The slice of length \<open>n\<close> on the array \<open>b\<close>.\<close>

definition resplit :: "nat \<Rightarrow> byte list \<Rightarrow> slice" where
  "resplit n b = \<lparr>elems = take n b, room = drop n b\<rparr>"

subsection \<open>Building a node\<close>

text \<open>
  What a node is to hold: for each key its child pointer, the key and the value.
\<close>

record entry =
  ptr :: uint64
  key :: "byte list"
  val :: "byte list"

text \<open>
  The page format as the comment on \<open>BNode\<close> draws it: a record is \<open>klen\<close>, \<open>vlen\<close>, key,
  value; the records are packed, so record \<open>i\<close> starts where the records before it end, the
  first at 0; and after the pointer array come the offsets of records 1 to the key count,
  two bytes each, then the records. \<open>laid_out\<close> says that a buffer has these bytes there.
\<close>

definition record_bytes :: "entry \<Rightarrow> byte list" where
  "record_bytes e = le_bytes 2 (length (key e)) @ le_bytes 2 (length (val e)) @ key e @ val e"

definition record_start :: "entry list \<Rightarrow> nat \<Rightarrow> nat" where
  "record_start es i = length (concat (map record_bytes (take i es)))"

definition kv_region :: "entry list \<Rightarrow> byte list" where
  "kv_region es =
     concat (map (\<lambda>i. le_bytes 2 (record_start es i)) [1..<Suc (length es)])
       @ concat (map record_bytes es)"

definition laid_out :: "BNode \<Rightarrow> entry list \<Rightarrow> bool" where
  "laid_out node es \<longleftrightarrow>
     bytes_at node (4 + 8 * length es) (length (kv_region es)) = kv_region es"

text \<open>
  The writers of the codec at work on a buffer: \<open>setHeader\<close> once, then \<open>setPtr\<close> for
  the indices \<open>i\<close>, \<open>i + 1\<close>, ... in turn. A panic of either ends the run.
\<close>

fun setPtrs :: "BNode \<Rightarrow> nat \<Rightarrow> uint64 list \<Rightarrow> fault + BNode" where
  "setPtrs node i [] = Inr node"
| "setPtrs node i (p # ps) =
     andThen (setPtr node (of_nat i) p) (\<lambda>node'. setPtrs node' (Suc i) ps)"

definition build :: "BNode \<Rightarrow> uint16 \<Rightarrow> entry list \<Rightarrow> fault + BNode" where
  "build node bt es =
     andThen (setHeader node bt (of_nat (length es))) (\<lambda>node'. setPtrs node' 0 (map ptr es))"

subsection \<open>Sample nodes\<close>

text \<open>
  A leaf of two records, \<open>a \<mapsto> xy\<close> and \<open>bc \<mapsto> z\<close>, with pointers 1 and 258, followed by
  two spare bytes; a node without keys; and a leaf whose one record has a key of 1000 and
  a value of 3000 bytes.
\<close>

definition leaf2 :: BNode where
  "leaf2 = \<lparr>data = \<lparr>elems =
     [2, 0, 2, 0,
      1, 0, 0, 0, 0, 0, 0, 0,   2, 1, 0, 0, 0, 0, 0, 0,
      7, 0, 14, 0,
      1, 0, 2, 0, 97, 120, 121,
      2, 0, 1, 0, 98, 99, 122,
      0, 0], room = []\<rparr>\<rparr>"

definition empty_node :: BNode where
  "empty_node = \<lparr>data = \<lparr>elems = [2, 0, 0, 0], room = []\<rparr>\<rparr>"

definition big1 :: BNode where
  "big1 = \<lparr>data = \<lparr>elems =
     [2, 0, 1, 0,
      0, 0, 0, 0, 0, 0, 0, 0,
      164, 15,
      232, 3, 184, 11] @ replicate 4000 0, room = []\<rparr>\<rparr>"

text \<open>
  The two records of \<open>leaf2\<close> as entries, and a buffer of 40 bytes that holds their offset
  table and records where the format wants them, with other bytes in the header and in the
  pointer array.
\<close>

definition leaf2_entries :: "entry list" where
  "leaf2_entries =
     [\<lparr>ptr = 1, key = [97], val = [120, 121]\<rparr>, \<lparr>ptr = 258, key = [98, 99], val = [122]\<rparr>]"

definition blank2 :: BNode where
  "blank2 = \<lparr>data = \<lparr>elems =
     [9, 9, 9, 9,
      9, 9, 9, 9, 9, 9, 9, 9,   9, 9, 9, 9, 9, 9, 9, 9,
      7, 0, 14, 0,
      1, 0, 2, 0, 97, 120, 121,
      2, 0, 1, 0, 98, 99, 122,
      0, 0], room = []\<rparr>\<rparr>"

section \<open>Little-endian words and slices\<close>

lemma andThen_simps [simp]:
  "andThen (Inl e) f = Inl e" "andThen (Inr x) f = f x"
  by (simp_all add: andThen_def)

lemma assert_simps [simp]:
  "assert True = Inr ()" "assert False = Inl AssertionFailed"
  by (simp_all add: assert_def)

lemma unat_byte: "unat (b::byte) < 256"
  using unsigned_less[of b, where 'a=nat] by simp

lemma le_val_bound: "le_val bs < 256 ^ length bs"
proof (induction bs)
  case Nil show ?case by simp
next
  case (Cons b bs)
  have "unat b + 256 * le_val bs < 256 + 256 * le_val bs" using unat_byte[of b] by simp
  also have "\<dots> = 256 * Suc (le_val bs)" by simp
  also have "\<dots> \<le> 256 * 256 ^ length bs" using Cons.IH by (intro mult_le_mono2) simp
  finally show ?case by simp
qed

lemma or_is_add:
  fixes a :: "'a::len word"
  assumes "\<And>n. bit a n \<Longrightarrow> n < k"
  shows "a OR push_bit k b = a + push_bit k b"
proof (rule disjunctive_add[symmetric])
  fix n show "\<not> bit a n \<or> \<not> bit (push_bit k b) n"
    using assms[of n] by (auto simp: bit_push_bit_iff)
qed

lemma bit_byte: "bit (ucast (b::byte) :: 'a::len word) n \<Longrightarrow> n < 8"
  by (auto simp: bit_ucast_iff dest: bit_imp_le_length)

lemma bit_or_push:
  fixes a :: "'a::len word"
  assumes "\<And>n. bit a n \<Longrightarrow> n < k" "bit (a OR push_bit k (ucast (b::byte))) n"
  shows "n < k + 8"
proof -
  from assms(2) have "bit a n \<or> bit (push_bit k (ucast b :: 'a word)) n" by (simp add: bit_or_iff)
  then show ?thesis
  proof
    assume "bit a n" then show ?thesis using assms(1)[of n] by simp
  next
    assume "bit (push_bit k (ucast b :: 'a word)) n"
    then have "k \<le> n" "bit (ucast b :: 'a word) (n - k)" by (auto simp: bit_push_bit_iff)
    then show ?thesis using bit_byte[where 'a='a, of b "n - k"] by linarith
  qed
qed

lemma u16_add:
  "(ucast b0 OR push_bit 8 (ucast b1) :: uint16) = of_nat (le_val [b0, b1])"
  by (subst or_is_add[where k=8]) (auto simp: push_bit_eq_mult dest: bit_byte)

lemma u64_add:
  "(((((((ucast b0 OR push_bit 8 (ucast b1)) OR push_bit 16 (ucast b2)) OR push_bit 24 (ucast b3))
     OR push_bit 32 (ucast b4)) OR push_bit 40 (ucast b5)) OR push_bit 48 (ucast b6))
     OR push_bit 56 (ucast b7) :: uint64) = of_nat (le_val [b0, b1, b2, b3, b4, b5, b6, b7])"
proof -
  let ?a1 = "ucast b0 :: uint64"
  let ?a2 = "?a1 OR push_bit 8 (ucast b1)"
  let ?a3 = "?a2 OR push_bit 16 (ucast b2)"
  let ?a4 = "?a3 OR push_bit 24 (ucast b3)"
  let ?a5 = "?a4 OR push_bit 32 (ucast b4)"
  let ?a6 = "?a5 OR push_bit 40 (ucast b5)"
  let ?a7 = "?a6 OR push_bit 48 (ucast b6)"
  have b1: "\<And>n. bit ?a1 n \<Longrightarrow> n < 8" by (rule bit_byte)
  have b2: "\<And>n. bit ?a2 n \<Longrightarrow> n < 16" using bit_or_push[OF b1] by fastforce
  have b3: "\<And>n. bit ?a3 n \<Longrightarrow> n < 24" using bit_or_push[OF b2] by fastforce
  have b4: "\<And>n. bit ?a4 n \<Longrightarrow> n < 32" using bit_or_push[OF b3] by fastforce
  have b5: "\<And>n. bit ?a5 n \<Longrightarrow> n < 40" using bit_or_push[OF b4] by fastforce
  have b6: "\<And>n. bit ?a6 n \<Longrightarrow> n < 48" using bit_or_push[OF b5] by fastforce
  have b7: "\<And>n. bit ?a7 n \<Longrightarrow> n < 56" using bit_or_push[OF b6] by fastforce
  have e7: "?a7 OR push_bit 56 (ucast b7) = ?a7 + push_bit 56 (ucast b7)" by (rule or_is_add[OF b7])
  have e6: "?a7 = ?a6 + push_bit 48 (ucast b6)" by (rule or_is_add[OF b6])
  have e5: "?a6 = ?a5 + push_bit 40 (ucast b5)" by (rule or_is_add[OF b5])
  have e4: "?a5 = ?a4 + push_bit 32 (ucast b4)" by (rule or_is_add[OF b4])
  have e3: "?a4 = ?a3 + push_bit 24 (ucast b3)" by (rule or_is_add[OF b3])
  have e2: "?a3 = ?a2 + push_bit 16 (ucast b2)" by (rule or_is_add[OF b2])
  have e1: "?a2 = ?a1 + push_bit 8 (ucast b1)" by (rule or_is_add[OF b1])
  show ?thesis
    apply (simp only: e7)
    apply (simp only: e6)
    apply (simp only: e5)
    apply (simp only: e4)
    apply (simp only: e3)
    apply (simp only: e2)
    apply (simp only: e1)
    apply (simp add: push_bit_eq_mult)
    done
qed

lemma unat_le_val: "length bs \<le> LENGTH('a) div 8 \<Longrightarrow> unat (of_nat (le_val bs) :: 'a::len word) = le_val bs"
proof -
  assume a: "length bs \<le> LENGTH('a) div 8"
  have "le_val bs < 256 ^ length bs" by (rule le_val_bound)
  also have "\<dots> = (2::nat) ^ (8 * length bs)" by (simp add: power_mult)
  also have "\<dots> \<le> 2 ^ LENGTH('a)" using a by (intro power_increasing) auto
  finally show ?thesis by (simp add: unat_of_nat)
qed

lemma le_val_put16: "le_val [ucast (v::uint16), ucast (drop_bit 8 v)] = unat v"
proof -
  have "unat v < 2 ^ 16" using unsigned_less[of v, where 'a=nat] by simp
  then have "unat v div 256 < 256" by simp
  then have "le_val [ucast v, ucast (drop_bit 8 v)] = unat v mod 256 + 256 * (unat v div 256)"
    by (simp add: unsigned_ucast_eq unat_drop_bit_eq) (simp add: take_bit_eq_mod drop_bit_eq_div)
  then show ?thesis by simp
qed

lemma length_le_bytes [simp]: "length (le_bytes k x) = k"
  by (induction k arbitrary: x) simp_all

lemma le_val_le_bytes: "le_val (le_bytes k x) = x mod 256 ^ k"
proof (induction k arbitrary: x)
  case 0 show ?case by simp
next
  case (Suc k)
  have "unat (of_nat x :: byte) = x mod 256" by (simp add: unat_of_nat)
  then show ?case using Suc.IH[of "x div 256"] by (simp add: mod_mult2_eq)
qed

lemma ucast_drop_byte: "(ucast (drop_bit n (v::'a::len word)) :: byte) = of_nat (unat v div 2 ^ n)"
proof -
  have "(ucast (drop_bit n v) :: byte) = of_nat (unat (drop_bit n v))" by simp
  also have "unat (drop_bit n v) = drop_bit n (unat v)" by (rule unat_drop_bit_eq)
  also have "\<dots> = unat v div 2 ^ n" by (rule drop_bit_eq_div)
  finally show ?thesis .
qed

lemma le_bytes_8:
  "le_bytes 8 x = [of_nat x, of_nat (x div 256), of_nat (x div 256 div 256),
     of_nat (x div 256 div 256 div 256), of_nat (x div 256 div 256 div 256 div 256),
     of_nat (x div 256 div 256 div 256 div 256 div 256),
     of_nat (x div 256 div 256 div 256 div 256 div 256 div 256),
     of_nat (x div 256 div 256 div 256 div 256 div 256 div 256 div 256)]"
proof -
  have "(8::nat) = Suc (Suc (Suc (Suc (Suc (Suc (Suc (Suc 0)))))))" by simp
  then show ?thesis by (simp only: le_bytes.simps)
qed

lemma bytes64_le_bytes: "bytes64 v = le_bytes 8 (unat v)"
proof -
  have "(ucast v :: byte) = of_nat (unat v)" by simp
  then show ?thesis
    unfolding le_bytes_8 bytes64_def ucast_drop_byte
    by (simp add: div_mult2_eq[symmetric] del: of_nat_unat)
qed

lemma le_val_bytes64: "le_val (bytes64 v) = unat v"
proof -
  have "unat v < 2 ^ 64" using unsigned_less[of v, where 'a=nat] by simp
  then show ?thesis by (simp add: bytes64_le_bytes le_val_le_bytes)
qed

lemma le_val_bytes16: "le_val (bytes16 v) = unat v"
  unfolding bytes16_def by (rule le_val_put16)

lemma length_bytes [simp]: "length (bytes16 v) = 2" "length (bytes64 w) = 8"
  by (simp_all add: bytes16_def bytes64_def)

lemma take2_nth: "2 \<le> length xs \<Longrightarrow> [xs ! 0, xs ! Suc 0] = take 2 xs"
  by (cases xs; cases "tl xs") auto

lemma upd2: "2 \<le> length xs \<Longrightarrow> xs[0 := a, Suc 0 := b] = a # b # drop 2 xs"
  by (cases xs; cases "tl xs") auto


lemma split8: "8 \<le> length xs \<Longrightarrow> \<exists>x0 x1 x2 x3 x4 x5 x6 x7 r. xs = x0 # x1 # x2 # x3 # x4 # x5 # x6 # x7 # r"
  by (auto simp: numeral_eq_Suc Suc_le_length_iff)

lemma take8_nth: "8 \<le> length xs \<Longrightarrow> [xs ! 0, xs ! 1, xs ! 2, xs ! 3, xs ! 4, xs ! 5, xs ! 6, xs ! 7] = take 8 xs"
  using split8[of xs] by auto

lemma upd8: "8 \<le> length xs \<Longrightarrow>
   xs[0 := a0, Suc 0 := a1, 2 := a2, 3 := a3, 4 := a4, 5 := a5, 6 := a6, 7 := a7]
     = a0 # a1 # a2 # a3 # a4 # a5 # a6 # a7 # drop 8 xs"
  using split8[of xs] by auto

lemma Uint16_char:
  "Uint16 b = (if 2 \<le> len b then Inr (of_nat (le_val (take 2 (elems b)))) else Inl OutOfRange)"
  by (auto simp: Uint16_def len_def u16_add take2_nth[symmetric] simp del: of_nat_add of_nat_mult)

lemma Uint64_char:
  "Uint64 b = (if 8 \<le> len b then Inr (of_nat (le_val (take 8 (elems b)))) else Inl OutOfRange)"
  by (auto simp: Uint64_def len_def u64_add take8_nth[symmetric] simp del: of_nat_add of_nat_mult)

lemma PutUint16_char:
  "PutUint16 b v = (if 2 \<le> len b then Inr (b\<lparr>elems := bytes16 v @ drop 2 (elems b)\<rparr>) else Inl OutOfRange)"
  by (auto simp: PutUint16_def len_def upd2 bytes16_def)

lemma PutUint64_char:
  "PutUint64 b v = (if 8 \<le> len b then Inr (b\<lparr>elems := bytes64 v @ drop 8 (elems b)\<rparr>) else Inl OutOfRange)"
  by (auto simp: PutUint64_def len_def upd8 bytes64_def)

subsection \<open>Slices as a length on an array\<close>

lemma backing_resplit [simp]: "backing (resplit n b) = b"
  by (simp add: resplit_def backing_def)

lemma len_resplit [simp]: "len (resplit n b) = min n (length b)"
  by (simp add: resplit_def len_def min.commute)

lemma cap_resplit [simp]: "cap (resplit n b) = length b"
  by (simp add: resplit_def cap_def)

lemma elems_resplit: "elems (resplit n b) = take n b"
  by (simp add: resplit_def)

lemma slice_from_char:
  "slice_from s lo = (if lo \<le> len s then Inr (resplit (len s - lo) (drop lo (backing s))) else Inl OutOfRange)"
  by (simp add: slice_from_def resplit_def len_def backing_def)

lemma slice_range_char:
  "slice_range s lo hi = (if lo \<le> hi \<and> hi \<le> cap s
     then Inr (resplit (hi - lo) (drop lo (backing s))) else Inl OutOfRange)"
  by (simp add: slice_range_def resplit_def)

lemma slice_upto_char:
  "slice_upto s hi = (if hi \<le> cap s then Inr (resplit hi (backing s)) else Inl OutOfRange)"
  by (simp add: slice_upto_def resplit_def)

lemma through_char: "through s lo t = resplit (len s) (take lo (backing s) @ backing t)"
  by (simp add: through_def resplit_def Let_def)

lemma cap_backing: "cap s = length (backing s)"
  by (simp add: cap_def backing_def)

lemma len_le_cap: "len s \<le> cap s"
  by (simp add: cap_def len_def)

lemma elems_backing: "elems s = take (len s) (backing s)"
  by (simp add: len_def backing_def)

lemma backing_mk [simp]: "backing \<lparr>elems = take n b, room = drop n b\<rparr> = b"
  by (simp add: backing_def)

lemma len_mk [simp]: "len \<lparr>elems = xs, room = ys\<rparr> = length xs"
  by (simp add: len_def)

lemma take_drop_within:
  "p + k \<le> n \<Longrightarrow> take k (drop p (take n xs)) = take k (drop p xs)"
  by (simp add: drop_take)

subsection \<open>Reading and writing at a position\<close>

lemma read16:
  "andThen (slice_from (data node) p) Uint16 =
     (if p + 2 \<le> len (data node) then Inr (of_nat (le_val (bytes_at node p 2))) else Inl OutOfRange)"
proof (cases "p + 2 \<le> len (data node)")
  case True
  then have "take 2 (drop p (elems (data node))) = bytes_at node p 2"
    unfolding bytes_at_def by (subst elems_backing) (simp add: take_drop_within)
  with True show ?thesis by (simp add: slice_from_def Uint16_char) (simp add: len_def)
next
  case False
  then show ?thesis by (auto simp: slice_from_def Uint16_char) (simp add: len_def)
qed

lemma read64:
  "andThen (slice_from (data node) p) Uint64 =
     (if p + 8 \<le> len (data node) then Inr (of_nat (le_val (bytes_at node p 8))) else Inl OutOfRange)"
proof (cases "p + 8 \<le> len (data node)")
  case True
  then have "take 8 (drop p (elems (data node))) = bytes_at node p 8"
    unfolding bytes_at_def by (subst elems_backing) (simp add: take_drop_within)
  with True show ?thesis by (simp add: slice_from_def Uint64_char) (simp add: len_def)
next
  case False
  then show ?thesis by (auto simp: slice_from_def Uint64_char) (simp add: len_def)
qed

lemma btype_char:
  "btype node = (if 2 \<le> len (data node) then Inr (of_nat (le_val (bytes_at node 0 2))) else Inl OutOfRange)"
proof (cases "2 \<le> len (data node)")
  case True
  then have "take 2 (elems (data node)) = bytes_at node 0 2"
    unfolding bytes_at_def by (subst elems_backing) simp
  with True show ?thesis by (simp add: btype_def Uint16_char)
next
  case False
  then show ?thesis by (simp add: btype_def Uint16_char)
qed

lemma nkeys_char:
  "nkeys node = (if 4 \<le> cap (data node) then Inr (of_nat (le_val (bytes_at node 2 2))) else Inl OutOfRange)"
  by (simp add: nkeys_def slice_range_def Uint16_char cap_backing bytes_at_def)

lemma PutUint16_resplit:
  "2 \<le> len b \<Longrightarrow> PutUint16 b v = Inr (resplit (len b) (bytes16 v @ drop 2 (backing b)))"
  by (simp add: PutUint16_char resplit_def len_def backing_def)

lemma PutUint64_resplit:
  "8 \<le> len b \<Longrightarrow> PutUint64 b v = Inr (resplit (len b) (bytes64 v @ drop 8 (backing b)))"
  by (simp add: PutUint64_char resplit_def len_def backing_def)

lemma write64:
  assumes "p + 8 \<le> len (data node)"
  shows "andThen (slice_from (data node) p) (\<lambda>b. andThen (PutUint64 b v) (\<lambda>b'.
      Inr (node\<lparr>data := through (data node) p b'\<rparr>))) =
    Inr (node\<lparr>data := resplit (len (data node))
           (take p (backing (data node)) @ bytes64 v @ drop (p + 8) (backing (data node)))\<rparr>)"
proof -
  let ?B = "backing (data node)" and ?L = "len (data node)"
  have LC: "?L \<le> length ?B" using len_le_cap[of "data node"] by (simp add: cap_backing)
  have s: "slice_from (data node) p = Inr (resplit (?L - p) (drop p ?B))"
    using assms by (simp add: slice_from_char)
  have l: "8 \<le> len (resplit (?L - p) (drop p ?B))" using assms LC by simp
  have p: "PutUint64 (resplit (?L - p) (drop p ?B)) v
      = Inr (resplit (len (resplit (?L - p) (drop p ?B))) (bytes64 v @ drop (p + 8) ?B))"
    using PutUint64_resplit[OF l, of v] by (simp add: add.commute)
  show ?thesis by (simp add: s p through_char)
qed

lemma write64_fail:
  assumes "\<not> p + 8 \<le> len (data node)"
  shows "andThen (slice_from (data node) p) (\<lambda>b. andThen (PutUint64 b v) (\<lambda>b'.
      Inr (node\<lparr>data := through (data node) p b'\<rparr>))) = Inl OutOfRange"
  using assms by (auto simp: slice_from_def PutUint64_char len_def)

lemma setHeader_char:
  "setHeader node bt nk =
   (if 4 \<le> cap (data node)
    then Inr (node\<lparr>data := resplit (len (data node))
           (bytes16 bt @ bytes16 nk @ drop 4 (backing (data node)))\<rparr>)
    else Inl OutOfRange)"
proof (cases "2 \<le> cap (data node)")
  case True
  let ?B = "backing (data node)" and ?L = "len (data node)"
  let ?B1 = "bytes16 bt @ drop 2 ?B"
  from True have C: "2 \<le> length ?B" by (simp add: cap_backing)
  have LC: "?L \<le> length ?B" using len_le_cap[of "data node"] by (simp add: cap_backing)
  have s1: "slice_range (data node) 0 2 = Inr (resplit 2 ?B)"
    using True by (simp add: slice_range_char)
  have p1: "PutUint16 (resplit 2 ?B) bt = Inr (resplit 2 ?B1)"
    using PutUint16_resplit[of "resplit 2 ?B" bt] C by simp
  have t1: "through (data node) 0 (resplit 2 ?B1) = resplit ?L ?B1"
    by (simp add: through_char)
  have l1: "len (resplit ?L ?B1) = ?L" using LC C by simp
  show ?thesis
  proof (cases "4 \<le> cap (data node)")
    case True
    then have C4: "4 \<le> length ?B" by (simp add: cap_backing)
    have s2: "slice_range (resplit ?L ?B1) 2 4 = Inr (resplit 2 (drop 2 ?B))"
      using C4 by (simp add: slice_range_char)
    have p2: "PutUint16 (resplit 2 (drop 2 ?B)) nk = Inr (resplit 2 (bytes16 nk @ drop 4 ?B))"
      using PutUint16_resplit[of "resplit 2 (drop 2 ?B)" nk] C4 by simp
    have t2: "through (resplit ?L ?B1) 2 (resplit 2 (bytes16 nk @ drop 4 ?B))
        = resplit ?L (bytes16 bt @ bytes16 nk @ drop 4 ?B)"
      unfolding through_char l1 by simp
    show ?thesis unfolding setHeader_def using True
      by (simp add: s1 p1 t1 s2 p2 t2 Let_def del: len_resplit)
  next
    case False
    then have s2: "slice_range (resplit ?L ?B1) 2 4 = Inl OutOfRange"
      using C by (simp add: slice_range_char cap_backing)
    show ?thesis unfolding setHeader_def using False
      by (simp add: s1 p1 t1 s2 Let_def del: len_resplit)
  qed
next
  case False
  then have "slice_range (data node) 0 2 = Inl OutOfRange"
    by (simp add: slice_range_def)
  then show ?thesis unfolding setHeader_def using False by simp
qed

section \<open>The accessors\<close>

subsection \<open>Positions that do not wrap\<close>

lemma unat16_add: "unat a + unat b < 65536 \<Longrightarrow> unat (a + b :: uint16) = unat a + unat b"
  using unat_add_lem[of a b] by simp

lemma unat16_mult: "unat a * unat b < 65536 \<Longrightarrow> unat (a * b :: uint16) = unat a * unat b"
  using unat_mult_lem[of a b] by simp

lemma unat16_pred: "1 \<le> (i::uint16) \<Longrightarrow> unat (i - 1) = unat i - 1"
  by (metis unat_minus_one word_le_0_iff zero_neq_one not_less word_less_1 leD)

lemma ptr_pos:
  assumes "4 + 8 * unat (i::uint16) < 65536"
  shows "unat (HEADER + 8 * i) = 4 + 8 * unat i"
proof -
  have "unat (8 * i) = 8 * unat i" using assms unat16_mult[of 8 i] by simp
  then show ?thesis using assms unat16_add[of 4 "8 * i"] by (simp add: HEADER_def)
qed

lemma off_pos:
  assumes "1 \<le> (i::uint16)" "4 + 8 * unat (n::uint16) + 2 * (unat i - 1) < 65536"
  shows "unat (HEADER + 8 * n + 2 * (i - 1)) = 4 + 8 * unat n + 2 * (unat i - 1)"
proof -
  have a: "unat (8 * n) = 8 * unat n" using assms unat16_mult[of 8 n] by simp
  have b: "unat (i - 1) = unat i - 1" using assms(1) by (rule unat16_pred)
  have c: "unat (2 * (i - 1)) = 2 * (unat i - 1)" using assms b unat16_mult[of 2 "i - 1"] by simp
  have d: "unat (4 + 8 * n) = 4 + 8 * unat n" using assms a unat16_add[of 4 "8 * n"] by simp
  show ?thesis using assms c d unat16_add[of "4 + 8 * n" "2 * (i - 1)"] by (simp add: HEADER_def)
qed

lemma kv_pos:
  assumes "4 + 10 * unat (n::uint16) + unat (off::uint16) < 65536"
  shows "unat (HEADER + 8 * n + 2 * n + off) = 4 + 10 * unat n + unat off"
proof -
  have a: "unat (8 * n) = 8 * unat n" using assms unat16_mult[of 8 n] by simp
  have b: "unat (2 * n) = 2 * unat n" using assms unat16_mult[of 2 n] by simp
  have c: "unat (4 + 8 * n) = 4 + 8 * unat n" using assms a unat16_add[of 4 "8 * n"] by simp
  have d: "unat (4 + 8 * n + 2 * n) = 4 + 10 * unat n"
    using assms b c unat16_add[of "4 + 8 * n" "2 * n"] by simp
  show ?thesis using assms d unat16_add[of "4 + 8 * n + 2 * n" off] by (simp add: HEADER_def)
qed

subsection \<open>With the key count known\<close>

lemma getPtr_char:
  assumes "nkeys node = Inr n"
  shows "getPtr node i = (if i < n then andThen (slice_from (data node) (unat (HEADER + 8 * i))) Uint64
                          else Inl AssertionFailed)"
  by (simp add: getPtr_def assms Let_def)

lemma setPtr_char:
  assumes "nkeys node = Inr n"
  shows "setPtr node i v = (if i < n
     then andThen (slice_from (data node) (unat (HEADER + 8 * i))) (\<lambda>b. andThen (PutUint64 b v) (\<lambda>b'.
            Inr (node\<lparr>data := through (data node) (unat (HEADER + 8 * i)) b'\<rparr>)))
     else Inl AssertionFailed)"
  by (simp add: setPtr_def assms Let_def)

lemma offsetPos_char:
  assumes "nkeys node = Inr n"
  shows "offsetPos node i = (if 1 \<le> i \<and> i \<le> n then Inr (HEADER + 8 * n + 2 * (i - 1))
                             else Inl AssertionFailed)"
  by (simp add: offsetPos_def assms)

lemma getOffset_char:
  assumes "nkeys node = Inr n"
  shows "getOffset node i = (if i = 0 then Inr 0
     else if i \<le> n then andThen (slice_from (data node) (unat (HEADER + 8 * n + 2 * (i - 1)))) Uint16
     else Inl AssertionFailed)"
proof -
  have "i \<noteq> 0 \<Longrightarrow> 1 \<le> i" by (simp add: word_le_nat_alt unat_gt_0 Suc_leI)
  then show ?thesis by (auto simp: getOffset_def offsetPos_char[OF assms])
qed

lemma kvPos_char:
  assumes "nkeys node = Inr n"
  shows "kvPos node i = (if i \<le> n
     then andThen (getOffset node i) (\<lambda>off. Inr (HEADER + 8 * n + 2 * n + off))
     else Inl AssertionFailed)"
  by (simp add: kvPos_def assms)

lemma getKey_char:
  assumes "nkeys node = Inr n"
  shows "getKey node i = (if i < n
     then andThen (kvPos node i) (\<lambda>pos.
          andThen (andThen (slice_from (data node) (unat pos)) Uint16) (\<lambda>klen.
          andThen (slice_from (data node) (unat (pos + 4))) (\<lambda>s. slice_upto s (unat klen))))
     else Inl AssertionFailed)"
  by (simp add: getKey_def assms)

lemma getVal_char:
  assumes "nkeys node = Inr n"
  shows "getVal node i = (if i < n
     then andThen (kvPos node i) (\<lambda>pos.
          andThen (andThen (slice_from (data node) (unat pos)) Uint16) (\<lambda>klen.
          andThen (andThen (slice_from (data node) (unat (pos + 2))) Uint16) (\<lambda>vlen.
          andThen (slice_from (data node) (unat (pos + 4 + klen))) (\<lambda>s. slice_upto s (unat vlen)))))
     else Inl AssertionFailed)"
  by (simp add: getVal_def assms)

subsection \<open>When they return, and what\<close>

lemma length_bytes_at: "length (bytes_at node p k) \<le> k"
  by (simp add: bytes_at_def)

lemma unat_le16: "unat (of_nat (le_val (bytes_at node p 2)) :: uint16) = le_val (bytes_at node p 2)"
  by (rule unat_le_val) (use length_bytes_at[of node p 2] in simp)

lemma unat_le64: "unat (of_nat (le_val (bytes_at node p 8)) :: uint64) = le_val (bytes_at node p 8)"
  by (rule unat_le_val) (use length_bytes_at[of node p 8] in simp)

lemma word16_le_unat: "(i::uint16) \<le> n \<Longrightarrow> unat i \<le> unat n"
  by (simp add: word_le_nat_alt)

lemma word16_less_unat: "(i::uint16) < n \<Longrightarrow> unat i < unat n"
  by (simp add: word_less_nat_alt)

lemma getOffset_ok:
  assumes nk: "nkeys node = Inr n" and i: "1 \<le> i" "i \<le> n"
    and fit: "4 + 10 * unat n \<le> len (data node)" and small: "len (data node) < 65536"
  shows "getOffset node i
    = Inr (of_nat (le_val (bytes_at node (4 + 8 * unat n + 2 * (unat i - 1)) 2)))"
proof -
  have i1: "1 \<le> unat i" using i(1) by (simp add: word_le_nat_alt)
  have le: "unat i \<le> unat n" using i(2) by (rule word16_le_unat)
  have p: "unat (HEADER + 8 * n + 2 * (i - 1)) = 4 + 8 * unat n + 2 * (unat i - 1)"
    using i1 le fit small by (intro off_pos i(1)) simp
  have nz: "i \<noteq> 0" using i1 by auto
  have b: "4 + 8 * unat n + 2 * (unat i - 1) + 2 \<le> len (data node)"
    using i1 le fit by simp
  have "getOffset node i
      = andThen (slice_from (data node) (unat (HEADER + 8 * n + 2 * (i - 1)))) Uint16"
    by (simp only: getOffset_char[OF nk] nz i(2) if_False if_True)
  also have "\<dots> = Inr (of_nat (le_val (bytes_at node (4 + 8 * unat n + 2 * (unat i - 1)) 2)))"
    by (simp only: p read16 b if_True)
  finally show ?thesis .
qed

lemma kvPos_ok:
  assumes nk: "nkeys node = Inr n" and i: "i \<le> n"
    and fit: "4 + 10 * unat n \<le> len (data node)" and small: "len (data node) < 65536"
  shows "\<exists>off. getOffset node i = Inr off \<and> kvPos node i = Inr (HEADER + 8 * n + 2 * n + off)"
proof (cases "i = 0")
  case True
  then show ?thesis using i by (simp add: kvPos_char[OF nk] getOffset_char[OF nk])
next
  case False
  then have "1 \<le> i" by (simp add: word_le_nat_alt unat_gt_0 Suc_leI)
  from getOffset_ok[OF nk this i fit small] show ?thesis
    by (simp only: kvPos_char[OF nk] i if_True andThen_simps) blast
qed

lemma getPtr_ok:
  assumes nk: "nkeys node = Inr n" and i: "i < n"
    and fit: "4 + 8 * unat n \<le> len (data node)" and small: "len (data node) < 65536"
  shows "getPtr node i = Inr (of_nat (le_val (bytes_at node (4 + 8 * unat i) 8)))"
proof -
  have lt: "unat i < unat n" using i by (rule word16_less_unat)
  have p: "unat (HEADER + 8 * i) = 4 + 8 * unat i"
    using lt fit small by (intro ptr_pos) simp
  have "4 + 8 * unat i + 8 \<le> len (data node)" using lt fit by simp
  then show ?thesis using i by (simp add: getPtr_char[OF nk] p read64)
qed

lemma setPtr_ok:
  assumes nk: "nkeys node = Inr n" and i: "i < n"
    and fit: "4 + 8 * unat n \<le> len (data node)" and small: "len (data node) < 65536"
  shows "setPtr node i v = Inr (node\<lparr>data := resplit (len (data node))
           (take (4 + 8 * unat i) (backing (data node)) @ bytes64 v
              @ drop (4 + 8 * unat i + 8) (backing (data node)))\<rparr>)"
proof -
  have lt: "unat i < unat n" using i by (rule word16_less_unat)
  have p: "unat (HEADER + 8 * i) = 4 + 8 * unat i"
    using lt fit small by (intro ptr_pos) simp
  have "4 + 8 * unat i + 8 \<le> len (data node)" using lt fit by simp
  from write64[OF this, of v] show ?thesis using i by (simp add: setPtr_char[OF nk] p)
qed

lemma getKey_ok:
  assumes nk: "nkeys node = Inr n" and i: "i < n" and pos: "kvPos node i = Inr pos"
    and kl: "kl = le_val (bytes_at node (unat pos) 2)"
    and inl: "unat pos + 4 \<le> len (data node)" and inc: "unat pos + 4 + kl \<le> cap (data node)"
    and small: "len (data node) < 65536"
  shows "getKey node i = Inr (resplit kl (drop (unat pos + 4) (backing (data node))))"
proof -
  have r: "andThen (slice_from (data node) (unat pos)) Uint16 = Inr (of_nat kl)"
    using inl by (simp add: read16 kl)
  have u: "unat (of_nat kl :: uint16) = kl" unfolding kl by (rule unat_le16)
  have p4: "unat (pos + 4) = unat pos + 4" using inl small unat16_add[of pos 4] by simp
  have s: "slice_from (data node) (unat pos + 4)
      = Inr (resplit (len (data node) - (unat pos + 4)) (drop (unat pos + 4) (backing (data node))))"
    using inl by (simp add: slice_from_char)
  have h: "kl \<le> cap (resplit (len (data node) - (unat pos + 4)) (drop (unat pos + 4) (backing (data node))))"
    using inc by (simp add: cap_backing)
  show ?thesis
    by (simp only: getKey_char[OF nk] i if_True pos andThen_simps r u p4 s slice_upto_char h
          backing_resplit)
qed

lemma getVal_ok:
  assumes nk: "nkeys node = Inr n" and i: "i < n" and pos: "kvPos node i = Inr pos"
    and kl: "kl = le_val (bytes_at node (unat pos) 2)"
    and vl: "vl = le_val (bytes_at node (unat pos + 2) 2)"
    and inl: "unat pos + 4 + kl \<le> len (data node)"
    and inc: "unat pos + 4 + kl + vl \<le> cap (data node)"
    and small: "len (data node) < 65536"
  shows "getVal node i = Inr (resplit vl (drop (unat pos + 4 + kl) (backing (data node))))"
proof -
  have r: "andThen (slice_from (data node) (unat pos)) Uint16 = Inr (of_nat kl)"
    using inl by (simp add: read16 kl)
  have u: "unat (of_nat kl :: uint16) = kl" unfolding kl by (rule unat_le16)
  have p2: "unat (pos + 2) = unat pos + 2" using inl small unat16_add[of pos 2] by simp
  have r2: "andThen (slice_from (data node) (unat pos + 2)) Uint16 = Inr (of_nat vl)"
    using inl by (simp add: read16 vl)
  have u2: "unat (of_nat vl :: uint16) = vl" unfolding vl by (rule unat_le16)
  have p4: "unat (pos + 4) = unat pos + 4" using inl small unat16_add[of pos 4] by simp
  have pk: "unat (pos + 4 + of_nat kl) = unat pos + 4 + kl"
    using inl small u p4 unat16_add[of "pos + 4" "of_nat kl"] by simp
  have s: "slice_from (data node) (unat pos + 4 + kl)
      = Inr (resplit (len (data node) - (unat pos + 4 + kl)) (drop (unat pos + 4 + kl) (backing (data node))))"
    using inl by (simp add: slice_from_char)
  have h: "vl \<le> cap (resplit (len (data node) - (unat pos + 4 + kl))
                 (drop (unat pos + 4 + kl) (backing (data node))))"
    using inc by (simp add: cap_backing)
  show ?thesis
    by (simp only: getVal_char[OF nk] i if_True pos andThen_simps r u p2 r2 u2 pk s
          slice_upto_char h backing_resplit)
qed

section \<open>The setters\<close>

lemma frame_before:
  "q + k \<le> p \<Longrightarrow> p \<le> length B \<Longrightarrow> take k (drop q (take p B @ rest)) = take k (drop q B)"
  by (simp add: drop_take)

lemma frame_after:
  "length bs = m \<Longrightarrow> p + m \<le> q \<Longrightarrow> p + m \<le> length B \<Longrightarrow>
     drop q (take p B @ bs @ drop (p + m) B) = drop q B"
  by simp

lemma setPtr_effect:
  assumes nk: "nkeys node = Inr n" and i: "i < n"
    and fit: "4 + 8 * unat n \<le> len (data node)" and small: "len (data node) < 65536"
  shows "\<exists>node'. setPtr node i v = Inr node'
     \<and> backing (data node') = take (4 + 8 * unat i) (backing (data node)) @ bytes64 v
            @ drop (4 + 8 * unat i + 8) (backing (data node))
     \<and> len (data node') = len (data node)"
proof -
  let ?B = "backing (data node)" and ?p = "4 + 8 * unat i"
  have lt: "unat i < unat n" using i by (rule word16_less_unat)
  have "len (data node) \<le> length ?B" using len_le_cap[of "data node"] by (simp add: cap_backing)
  then have "len (resplit (len (data node)) (take ?p ?B @ bytes64 v @ drop (?p + 8) ?B)) = len (data node)"
    using lt fit by simp
  then show ?thesis by (simp add: setPtr_ok[OF assms])
qed

lemma setHeader_effect:
  assumes "4 \<le> cap (data node)"
  shows "\<exists>node'. setHeader node bt nk = Inr node'
     \<and> backing (data node') = bytes16 bt @ bytes16 nk @ drop 4 (backing (data node))
     \<and> len (data node') = len (data node)"
proof -
  have "len (data node) \<le> length (backing (data node))"
    using len_le_cap[of "data node"] by (simp add: cap_backing)
  then have "len (resplit (len (data node)) (bytes16 bt @ bytes16 nk @ drop 4 (backing (data node))))
      = len (data node)" using assms by (simp add: cap_backing)
  then show ?thesis using assms by (simp add: setHeader_char)
qed

lemma read64_no_assert: "andThen (slice_from (data (node::BNode)) p) Uint64 \<noteq> Inl AssertionFailed"
  by (simp add: read64)

lemma write64_no_assert:
  "andThen (slice_from (data (node::BNode)) p) (\<lambda>b. andThen (PutUint64 b v) (\<lambda>b'.
      Inr (node\<lparr>data := through (data node) p b'\<rparr>))) \<noteq> Inl AssertionFailed"
  by (cases "p + 8 \<le> len (data node)") (simp_all add: write64 write64_fail)

lemma getPtr_assert_iff:
  assumes "nkeys node = Inr n"
  shows "(getPtr node i = Inl AssertionFailed) = (n \<le> i)"
proof (cases "i < n")
  case True
  then have "getPtr node i = andThen (slice_from (data node) (unat (HEADER + 8 * i))) Uint64"
    by (simp add: getPtr_char[OF assms])
  then have "getPtr node i \<noteq> Inl AssertionFailed"
    using read64_no_assert[of node "unat (HEADER + 8 * i)"] by simp
  moreover have "\<not> n \<le> i" using True by simp
  ultimately show ?thesis by simp
next
  case False
  then have "getPtr node i = Inl AssertionFailed" by (simp add: getPtr_char[OF assms])
  moreover have "n \<le> i" using False by (simp add: not_less)
  ultimately show ?thesis by simp
qed

lemma setPtr_assert_iff:
  assumes "nkeys node = Inr n"
  shows "(setPtr node i v = Inl AssertionFailed) = (n \<le> i)"
proof (cases "i < n")
  case True
  then have "setPtr node i v = andThen (slice_from (data node) (unat (HEADER + 8 * i)))
      (\<lambda>b. andThen (PutUint64 b v) (\<lambda>b'.
        Inr (node\<lparr>data := through (data node) (unat (HEADER + 8 * i)) b'\<rparr>)))"
    by (simp add: setPtr_char[OF assms])
  then have "setPtr node i v \<noteq> Inl AssertionFailed"
    using write64_no_assert[of node "unat (HEADER + 8 * i)" v] by simp
  moreover have "\<not> n \<le> i" using True by simp
  ultimately show ?thesis by simp
next
  case False
  then have "setPtr node i v = Inl AssertionFailed" by (simp add: setPtr_char[OF assms])
  moreover have "n \<le> i" using False by (simp add: not_less)
  ultimately show ?thesis by simp
qed

lemma le_val_take2_bytes16: "le_val (take 2 (bytes16 a @ rest)) = unat a"
  by (simp add: le_val_bytes16)

lemma setHeader_reads:
  assumes s: "setHeader node bt nk = Inr node'" and c: "4 \<le> cap (data node)"
  shows "backing (data node') = bytes16 bt @ bytes16 nk @ drop 4 (backing (data node))"
    and "len (data node') = len (data node)"
    and "cap (data node') = cap (data node)"
    and "le_val (bytes_at node' 0 2) = unat bt"
    and "le_val (bytes_at node' 2 2) = unat nk"
    and "drop 4 (backing (data node')) = drop 4 (backing (data node))"
proof -
  from setHeader_effect[OF c, of bt nk] s
  show b: "backing (data node') = bytes16 bt @ bytes16 nk @ drop 4 (backing (data node))"
    and "len (data node') = len (data node)" by auto
  show "cap (data node') = cap (data node)" using c by (simp add: cap_backing b)
  show "le_val (bytes_at node' 0 2) = unat bt" by (simp add: bytes_at_def b le_val_bytes16)
  show "le_val (bytes_at node' 2 2) = unat nk" by (simp add: bytes_at_def b le_val_bytes16)
  show "drop 4 (backing (data node')) = drop 4 (backing (data node))" by (simp add: b)
qed

lemma setPtr_reads:
  assumes nk: "nkeys node = Inr n" and i: "i < n"
    and fit: "4 + 8 * unat n \<le> len (data node)" and small: "len (data node) < 65536"
    and s: "setPtr node i v = Inr node'"
  shows "backing (data node') = take (4 + 8 * unat i) (backing (data node)) @ bytes64 v
            @ drop (4 + 8 * unat i + 8) (backing (data node))"
    and "len (data node') = len (data node)"
    and "cap (data node') = cap (data node)"
    and "bytes_at node' (4 + 8 * unat i) 8 = bytes64 v"
    and "take (4 + 8 * unat i) (backing (data node')) = take (4 + 8 * unat i) (backing (data node))"
    and "\<And>q. 4 + 8 * unat i + 8 \<le> q \<Longrightarrow> drop q (backing (data node')) = drop q (backing (data node))"
    and "nkeys node' = Inr n"
proof -
  let ?p = "4 + 8 * unat i" and ?B = "backing (data node)"
  from setPtr_effect[OF nk i fit small, of v] s
  show b: "backing (data node') = take ?p ?B @ bytes64 v @ drop (?p + 8) ?B"
    and l: "len (data node') = len (data node)" by auto
  have lt: "unat i < unat n" using i by (rule word16_less_unat)
  have pB: "?p + 8 \<le> length ?B"
    using lt fit len_le_cap[of "data node"] by (simp add: cap_backing)
  show c: "cap (data node') = cap (data node)" using pB by (simp add: cap_backing b)
  show "bytes_at node' ?p 8 = bytes64 v" using pB by (simp add: bytes_at_def b)
  show "take ?p (backing (data node')) = take ?p ?B" using pB by (simp add: b)
  show "drop q (backing (data node')) = drop q ?B" if "?p + 8 \<le> q" for q
    unfolding b using that pB by (intro frame_after[where m=8]) simp_all
  have "bytes_at node' 2 2 = bytes_at node 2 2"
    unfolding bytes_at_def b using pB by (intro frame_before) simp_all
  moreover from nk have "4 \<le> cap (data node)" "of_nat (le_val (bytes_at node 2 2)) = n"
    by (auto simp: nkeys_char split: if_splits)
  ultimately show "nkeys node' = Inr n" by (simp add: nkeys_char c)
qed

lemma bytes_at_resplit:
  "elems (resplit k (drop p (backing (data node)))) = bytes_at node p k"
  by (simp add: elems_resplit bytes_at_def)

section \<open>Building a node and reading it back\<close>

lemma concat_chunk:
  assumes "\<And>x. x \<in> set xs \<Longrightarrow> length (f x) = k" and "i < length xs"
  shows "take k (drop (k * i) (concat (map f xs) @ rest)) = f (xs ! i)"
  using assms
proof (induction xs arbitrary: i)
  case Nil
  then show ?case by simp
next
  case (Cons x xs)
  have lx: "length (f x) = k" using Cons.prems(1) by simp
  show ?case
  proof (cases i)
    case 0
    then show ?thesis using lx by simp
  next
    case (Suc j)
    have "drop (k * Suc j) (f x @ concat (map f xs) @ rest) = drop (k * j) (concat (map f xs) @ rest)"
      using lx by simp
    moreover have "take k (drop (k * j) (concat (map f xs) @ rest)) = f (xs ! j)"
      using Cons.prems Suc by (intro Cons.IH) simp_all
    ultimately show ?thesis using Suc by simp
  qed
qed

lemma concat_split:
  "concat (map f xs) = concat (map f (take i xs)) @ concat (map f (drop i xs))"
proof -
  have "concat (map f xs) = concat (map f (take i xs @ drop i xs))" by simp
  also have "\<dots> = concat (map f (take i xs)) @ concat (map f (drop i xs))"
    by (simp only: map_append concat_append)
  finally show ?thesis .
qed

lemma drop_record_start:
  assumes "i < length es"
  shows "drop (record_start es i) (concat (map record_bytes es) @ rest)
       = record_bytes (es ! i) @ concat (map record_bytes (drop (Suc i) es)) @ rest"
proof -
  have d: "drop i es = es ! i # drop (Suc i) es" using assms by (simp add: Cons_nth_drop_Suc)
  have "concat (map record_bytes es)
      = concat (map record_bytes (take i es)) @ record_bytes (es ! i)
          @ concat (map record_bytes (drop (Suc i) es))"
    by (subst concat_split[of _ _ i]) (simp add: d)
  then show ?thesis by (simp add: record_start_def)
qed

lemma record_start_Suc:
  assumes "i < length es"
  shows "record_start es (Suc i) = record_start es i + length (record_bytes (es ! i))"
  using assms by (simp add: record_start_def take_Suc_conv_app_nth)

lemma record_start_mono: "record_start es i \<le> length (concat (map record_bytes es))"
proof -
  have "length (concat (map record_bytes es))
      = record_start es i + length (concat (map record_bytes (drop i es)))"
    by (subst concat_split[of _ _ i]) (simp add: record_start_def)
  then show ?thesis by simp
qed

lemma length_record_bytes: "length (record_bytes e) = 4 + length (key e) + length (val e)"
  by (simp add: record_bytes_def)

lemma length_kv_region:
  "length (kv_region es) = 2 * length es + length (concat (map record_bytes es))"
proof -
  have "length (concat (map (\<lambda>i. le_bytes 2 (record_start es i)) xs)) = 2 * length xs" for xs
    by (induction xs) simp_all
  moreover have "length [1..<Suc (length es)] = length es" by (simp del: upt_Suc)
  ultimately show ?thesis unfolding kv_region_def by (simp only: length_append)
qed

lemma unat16_of_nat: "j < 65536 \<Longrightarrow> unat (of_nat j :: uint16) = j"
  by (simp add: unat_of_nat)

lemma setPtrs_effect:
  assumes "nkeys node = Inr n" and "4 + 8 * unat n \<le> len (data node)"
    and "len (data node) < 65536" and "j + length ps \<le> unat n"
  shows "\<exists>node'. setPtrs node j ps = Inr node' \<and> len (data node') = len (data node)
     \<and> backing (data node') = take (4 + 8 * j) (backing (data node)) @ concat (map bytes64 ps)
          @ drop (4 + 8 * (j + length ps)) (backing (data node))"
  using assms
proof (induction ps arbitrary: node j)
  case Nil
  then show ?case by simp
next
  case (Cons p ps)
  let ?B = "backing (data node)"
  have jn: "j < unat n" using Cons.prems(4) by simp
  have n16: "unat n < 65536" using Cons.prems(2,3) by simp
  have uj: "unat (of_nat j :: uint16) = j" using jn n16 by (intro unat16_of_nat) simp
  have lt: "(of_nat j :: uint16) < n" using jn uj by (simp add: word_less_nat_alt)
  obtain node1 where s1: "setPtr node (of_nat j) p = Inr node1"
    using setPtr_effect[OF Cons.prems(1) lt Cons.prems(2,3), of p] by blast
  note r = setPtr_reads[OF Cons.prems(1) lt Cons.prems(2,3) s1, unfolded uj]
  have pB: "4 + 8 * j + 8 \<le> length ?B"
    using jn Cons.prems(2) len_le_cap[of "data node"] by (simp add: cap_backing)
  have "\<exists>node'. setPtrs node1 (Suc j) ps = Inr node' \<and> len (data node') = len (data node1)
     \<and> backing (data node') = take (4 + 8 * Suc j) (backing (data node1)) @ concat (map bytes64 ps)
          @ drop (4 + 8 * (Suc j + length ps)) (backing (data node1))"
    using Cons.prems r(2) r(7) by (intro Cons.IH) simp_all
  then obtain node' where s2: "setPtrs node1 (Suc j) ps = Inr node'"
    and l2: "len (data node') = len (data node1)"
    and b2: "backing (data node') = take (4 + 8 * Suc j) (backing (data node1))
          @ concat (map bytes64 ps) @ drop (4 + 8 * (Suc j + length ps)) (backing (data node1))"
    by blast
  have t: "take (4 + 8 * Suc j) (backing (data node1)) = take (4 + 8 * j) ?B @ bytes64 p"
    unfolding r(1) using pB by simp
  have d: "drop (4 + 8 * (Suc j + length ps)) (backing (data node1))
      = drop (4 + 8 * (j + length (p # ps))) ?B"
    using r(6)[of "4 + 8 * (Suc j + length ps)"] by simp
  have "setPtrs node j (p # ps) = Inr node'" by (simp add: s1 s2)
  moreover have "len (data node') = len (data node)" using l2 r(2) by simp
  moreover have "backing (data node') = take (4 + 8 * j) ?B @ concat (map bytes64 (p # ps))
          @ drop (4 + 8 * (j + length (p # ps))) ?B"
    unfolding b2 t d by simp
  ultimately show ?case by blast
qed

lemma build_effect:
  assumes "4 + 8 * length es \<le> len (data node)" and "len (data node) < 65536"
  shows "\<exists>node'. build node bt es = Inr node' \<and> len (data node') = len (data node)
     \<and> backing (data node') = bytes16 bt @ bytes16 (of_nat (length es))
          @ concat (map bytes64 (map ptr es)) @ drop (4 + 8 * length es) (backing (data node))"
proof -
  let ?n = "of_nat (length es) :: uint16" and ?B = "backing (data node)"
  have un: "unat ?n = length es" using assms by (intro unat16_of_nat) simp
  have c: "4 \<le> cap (data node)" using assms(1) len_le_cap[of "data node"] by simp
  obtain node1 where s1: "setHeader node bt ?n = Inr node1"
    using setHeader_effect[OF c, of bt ?n] by blast
  note r = setHeader_reads[OF s1 c]
  have "of_nat (le_val (bytes_at node1 2 2)) = ?n" by (simp add: r(5))
  then have nk: "nkeys node1 = Inr ?n" using c by (simp add: nkeys_char r(3))
  have "\<exists>node'. setPtrs node1 0 (map ptr es) = Inr node' \<and> len (data node') = len (data node1)
     \<and> backing (data node') = take (4 + 8 * 0) (backing (data node1))
          @ concat (map bytes64 (map ptr es))
          @ drop (4 + 8 * (0 + length (map ptr es))) (backing (data node1))"
    using assms un r(2) by (intro setPtrs_effect[OF nk]) simp_all
  then obtain node' where s2: "setPtrs node1 0 (map ptr es) = Inr node'"
    and l2: "len (data node') = len (data node1)"
    and b2: "backing (data node') = take 4 (backing (data node1))
          @ concat (map bytes64 (map ptr es)) @ drop (4 + 8 * length es) (backing (data node1))"
    by auto
  have t: "take 4 (backing (data node1)) = bytes16 bt @ bytes16 ?n" unfolding r(1) by simp
  have d: "drop (4 + 8 * length es) (backing (data node1)) = drop (4 + 8 * length es) ?B"
    unfolding r(1) by (simp add: add.commute)
  have "build node bt es = Inr node'" by (simp add: build_def s1 s2)
  moreover have "len (data node') = len (data node)" using l2 r(2) by simp
  moreover have "backing (data node') = bytes16 bt @ bytes16 ?n
      @ concat (map bytes64 (map ptr es)) @ drop (4 + 8 * length es) ?B"
    unfolding b2 t d by simp
  ultimately show ?thesis by blast
qed

lemma length_concat_chunk:
  "(\<And>x. x \<in> set xs \<Longrightarrow> length (f x) = k) \<Longrightarrow> length (concat (map f xs)) = k * length xs"
  by (induction xs) simp_all

lemma le_val_le_bytes2: "x < 65536 \<Longrightarrow> le_val (le_bytes 2 x) = x"
  by (simp add: le_val_le_bytes)

lemma bytes_at_drop:
  "drop p (backing (data node)) = xs \<Longrightarrow> bytes_at node (p + d) k = take k (drop d xs)"
  by (auto simp: bytes_at_def add.commute)

lemma decode_image:
  fixes es :: "entry list" and node :: BNode
  defines "n \<equiv> length es"
  defines "Rec \<equiv> concat (map record_bytes es)"
  assumes img: "backing (data node) = bytes16 bt @ bytes16 (of_nat n)
        @ concat (map bytes64 (map ptr es))
        @ concat (map (\<lambda>i. le_bytes 2 (record_start es i)) [1..<Suc n]) @ Rec @ rest"
    and fit: "4 + 10 * n + length Rec \<le> len (data node)"
    and small: "len (data node) < 65536"
    and i: "i < n"
  shows "btype node = Inr bt \<and> nkeys node = Inr (of_nat n)
       \<and> getPtr node (of_nat i) = Inr (ptr (es ! i))
       \<and> (\<exists>k v. getKey node (of_nat i) = Inr k \<and> elems k = key (es ! i)
              \<and> getVal node (of_nat i) = Inr v \<and> elems v = val (es ! i))"
proof -
  define N :: uint16 where "N = of_nat n"
  define P where "P = concat (map bytes64 (map ptr es))"
  define Off where "Off = concat (map (\<lambda>i. le_bytes 2 (record_start es i)) [1..<Suc n])"
  let ?B = "backing (data node)"
  have B: "?B = bytes16 bt @ bytes16 N @ P @ Off @ Rec @ rest"
    using img by (simp add: N_def P_def Off_def)
  have lP: "length P = 8 * n" unfolding P_def n_def
    by (subst length_concat_chunk[where k=8]) simp_all
  have lO: "length Off = 2 * n" unfolding Off_def
    by (subst length_concat_chunk[where k=2]) (simp_all del: upt_Suc)
  have un: "unat N = n" unfolding N_def using fit small by (intro unat16_of_nat) simp
  have ui: "unat (of_nat i :: uint16) = i" using i fit small by (intro unat16_of_nat) simp
  have iN: "(of_nat i :: uint16) < N" using i ui un by (simp add: word_less_nat_alt)
  have lc: "len (data node) \<le> cap (data node)" by (rule len_le_cap)
  \<comment> \<open>the header\<close>
  have "bytes_at node 0 2 = bytes16 bt" by (simp add: bytes_at_def B)
  then have bt: "btype node = Inr bt" using fit by (simp add: btype_char le_val_bytes16)
  have "bytes_at node 2 2 = bytes16 N" by (simp add: bytes_at_def B)
  then have nk: "nkeys node = Inr N" using fit lc by (simp add: nkeys_char le_val_bytes16)
  \<comment> \<open>the pointer\<close>
  have dP: "drop 4 ?B = P @ Off @ Rec @ rest" by (simp add: B)
  have "bytes_at node (4 + 8 * i) 8 = take 8 (drop (8 * i) (P @ Off @ Rec @ rest))"
    by (rule bytes_at_drop[OF dP])
  also have "\<dots> = bytes64 (map ptr es ! i)"
    unfolding P_def using i by (intro concat_chunk) (simp_all add: n_def)
  finally have "bytes_at node (4 + 8 * i) 8 = bytes64 (ptr (es ! i))" using i by (simp add: n_def)
  moreover have "getPtr node (of_nat i) = Inr (of_nat (le_val (bytes_at node (4 + 8 * i) 8)))"
    using getPtr_ok[OF nk iN] fit small un ui by simp
  ultimately have gp: "getPtr node (of_nat i) = Inr (ptr (es ! i))"
    by (simp add: le_val_bytes64)
  \<comment> \<open>the offset of record \<open>i\<close>\<close>
  have rs: "record_start es i \<le> length Rec" unfolding Rec_def by (rule record_start_mono)
  have rs16: "record_start es i < 65536" using rs fit small by simp
  have go: "getOffset node (of_nat i) = Inr (of_nat (record_start es i))"
  proof (cases "i = 0")
    case True
    then show ?thesis by (simp add: getOffset_def record_start_def)
  next
    case False
    then have i1: "1 \<le> (of_nat i :: uint16)" using ui by (simp add: word_le_nat_alt)
    have le: "(of_nat i :: uint16) \<le> N" using iN by simp
    have dO: "drop (4 + 8 * n) ?B = Off @ Rec @ rest" using lP by (simp add: B)
    have "bytes_at node (4 + 8 * n + 2 * (i - 1)) 2 = take 2 (drop (2 * (i - 1)) (Off @ Rec @ rest))"
      by (rule bytes_at_drop[OF dO])
    also have "\<dots> = le_bytes 2 (record_start es ([1..<Suc n] ! (i - 1)))"
      unfolding Off_def using i False by (intro concat_chunk) (simp_all del: upt_Suc)
    also have "[1..<Suc n] ! (i - 1) = i" using i False by (simp del: upt_Suc)
    finally have "bytes_at node (4 + 8 * n + 2 * (i - 1)) 2 = le_bytes 2 (record_start es i)" .
    moreover have "getOffset node (of_nat i)
        = Inr (of_nat (le_val (bytes_at node (4 + 8 * n + 2 * (i - 1)) 2)))"
      using getOffset_ok[OF nk i1 le] fit small un ui by simp
    ultimately show ?thesis using rs16 by (simp add: le_val_le_bytes2)
  qed
  \<comment> \<open>the position of record \<open>i\<close>\<close>
  define pos :: uint16 where "pos = HEADER + 8 * N + 2 * N + of_nat (record_start es i)"
  have urs: "unat (of_nat (record_start es i) :: uint16) = record_start es i"
    using rs16 by (rule unat16_of_nat)
  have kp: "kvPos node (of_nat i) = Inr pos"
    using iN by (simp add: kvPos_char[OF nk] go pos_def)
  have up: "unat pos = 4 + 10 * n + record_start es i"
    unfolding pos_def using kv_pos[of N "of_nat (record_start es i)"] rs fit small un urs by simp
  \<comment> \<open>the record\<close>
  let ?e = "es ! i"
  have "drop (unat pos) ?B = drop (record_start es i) (Rec @ rest)"
    unfolding up using lP lO by (simp add: B)
  also have "\<dots> = record_bytes ?e @ concat (map record_bytes (drop (Suc i) es)) @ rest"
    unfolding Rec_def using i by (intro drop_record_start) (simp add: n_def)
  finally have dR: "drop (unat pos) ?B = le_bytes 2 (length (key ?e)) @ le_bytes 2 (length (val ?e))
      @ key ?e @ val ?e @ concat (map record_bytes (drop (Suc i) es)) @ rest"
    by (simp add: record_bytes_def)
  have "record_start es (Suc i) \<le> length Rec" unfolding Rec_def by (rule record_start_mono)
  then have inb: "unat pos + 4 + length (key ?e) + length (val ?e) \<le> len (data node)"
    using record_start_Suc[of i es] i fit up by (simp add: n_def length_record_bytes)
  have "bytes_at node (unat pos + 0) 2 = le_bytes 2 (length (key ?e))"
    by (subst bytes_at_drop[OF dR]) simp
  then have kl: "length (key ?e) = le_val (bytes_at node (unat pos) 2)"
    using inb small by (simp add: le_val_le_bytes2)
  have "bytes_at node (unat pos + 2) 2 = le_bytes 2 (length (val ?e))"
    by (subst bytes_at_drop[OF dR]) simp
  then have vl: "length (val ?e) = le_val (bytes_at node (unat pos + 2) 2)"
    using inb small by (simp add: le_val_le_bytes2)
  have bk: "bytes_at node (unat pos + 4) (length (key ?e)) = key ?e"
    by (subst bytes_at_drop[OF dR]) simp
  have bv: "bytes_at node (unat pos + (4 + length (key ?e))) (length (val ?e)) = val ?e"
    by (subst bytes_at_drop[OF dR]) simp
  have gk: "getKey node (of_nat i)
      = Inr (resplit (length (key ?e)) (drop (unat pos + 4) ?B))"
    using inb lc small by (intro getKey_ok[OF nk iN kp kl]) simp_all
  have gv: "getVal node (of_nat i)
      = Inr (resplit (length (val ?e)) (drop (unat pos + 4 + length (key ?e)) ?B))"
    using inb lc small by (intro getVal_ok[OF nk iN kp kl vl]) simp_all
  have "elems (resplit (length (key ?e)) (drop (unat pos + 4) ?B)) = key ?e"
    using bk by (simp add: bytes_at_resplit)
  moreover have "elems (resplit (length (val ?e)) (drop (unat pos + 4 + length (key ?e)) ?B)) = val ?e"
    using bv by (simp add: bytes_at_resplit add.assoc)
  ultimately show ?thesis using bt nk gp gk gv by (simp add: N_def)
qed

lemma le_bytes_2: "le_bytes 2 x = [of_nat x, of_nat (x div 256)]"
proof -
  have "(2::nat) = Suc (Suc 0)" by simp
  then show ?thesis by (simp only: le_bytes.simps)
qed

lemma leaf2_region:
  "kv_region leaf2_entries = [7, 0, 14, 0, 1, 0, 2, 0, 97, 120, 121, 2, 0, 1, 0, 98, 99, 122]"
proof -
  have u: "[1..<Suc (length leaf2_entries)] = [1, 2]"
    by (simp add: leaf2_entries_def upt_rec)
  have r: "map record_bytes leaf2_entries = [[1, 0, 2, 0, 97, 120, 121], [2, 0, 1, 0, 98, 99, 122]]"
    by (simp add: leaf2_entries_def record_bytes_def le_bytes_2)
  have s1: "record_start leaf2_entries (Suc 0) = 7"
    unfolding record_start_def take_map[symmetric] r by simp
  have s2: "record_start leaf2_entries 2 = 14"
    unfolding record_start_def take_map[symmetric] r by simp
  show ?thesis unfolding kv_region_def u r by (simp add: s1 s2 le_bytes_2)
qed

lemma laid_out_kvPos:
  assumes nk: "nkeys node = Inr n" and un: "unat n = length es"
    and lo: "laid_out node es"
    and fit: "4 + 8 * length es + length (kv_region es) \<le> len (data node)"
    and small: "len (data node) < 65536"
    and i: "i \<le> length es"
  shows "getOffset node (of_nat i) = Inr (of_nat (record_start es i))"
    and "\<exists>pos. kvPos node (of_nat i) = Inr pos
           \<and> unat pos = 4 + 8 * length es + 2 * length es + record_start es i"
proof -
  let ?n = "length es" and ?B = "backing (data node)"
  let ?Rec = "concat (map record_bytes es)"
  let ?Off = "concat (map (\<lambda>i. le_bytes 2 (record_start es i)) [1..<Suc ?n])"
  let ?rest = "drop (length (kv_region es)) (drop (4 + 8 * ?n) ?B)"
  have lr: "length (kv_region es) = 2 * ?n + length ?Rec" by (rule length_kv_region)
  have rs: "record_start es i \<le> length ?Rec" by (rule record_start_mono)
  have rs16: "record_start es i < 65536" using rs fit small lr by simp
  have urs: "unat (of_nat (record_start es i) :: uint16) = record_start es i"
    using rs16 by (rule unat16_of_nat)
  have ui: "unat (of_nat i :: uint16) = i" using i fit small by (intro unat16_of_nat) simp
  have le: "(of_nat i :: uint16) \<le> n" using i ui un by (simp add: word_le_nat_alt)
  have fit10: "4 + 10 * unat n \<le> len (data node)" using fit lr un by simp
  have "take (length (kv_region es)) (drop (4 + 8 * ?n) ?B) = kv_region es"
    using lo by (simp add: laid_out_def bytes_at_def)
  then have "drop (4 + 8 * ?n) ?B = kv_region es @ ?rest" by (metis append_take_drop_id)
  then have dO: "drop (4 + 8 * ?n) ?B = ?Off @ ?Rec @ ?rest"
    by (simp add: kv_region_def del: upt_Suc)
  show go: "getOffset node (of_nat i) = Inr (of_nat (record_start es i))"
  proof (cases "i = 0")
    case True
    then show ?thesis by (simp add: getOffset_def record_start_def)
  next
    case False
    then have i1: "1 \<le> (of_nat i :: uint16)" using ui by (simp add: word_le_nat_alt)
    have "bytes_at node (4 + 8 * ?n + 2 * (i - 1)) 2 = take 2 (drop (2 * (i - 1)) (?Off @ ?Rec @ ?rest))"
      by (rule bytes_at_drop[OF dO])
    also have "\<dots> = le_bytes 2 (record_start es ([1..<Suc ?n] ! (i - 1)))"
      using i False by (intro concat_chunk) (simp_all del: upt_Suc)
    also have "[1..<Suc ?n] ! (i - 1) = i" using i False by (simp del: upt_Suc)
    finally have "bytes_at node (4 + 8 * ?n + 2 * (i - 1)) 2 = le_bytes 2 (record_start es i)" .
    moreover have "getOffset node (of_nat i)
        = Inr (of_nat (le_val (bytes_at node (4 + 8 * ?n + 2 * (i - 1)) 2)))"
      using getOffset_ok[OF nk i1 le fit10 small] un ui by simp
    ultimately show ?thesis using rs16 by (simp add: le_val_le_bytes2)
  qed
  have kp: "kvPos node (of_nat i) = Inr (HEADER + 8 * n + 2 * n + of_nat (record_start es i))"
    using le by (simp add: kvPos_char[OF nk] go)
  have "unat (HEADER + 8 * n + 2 * n + of_nat (record_start es i) :: uint16)
      = 4 + 10 * unat n + unat (of_nat (record_start es i) :: uint16)"
    using rs fit small lr un urs by (intro kv_pos) simp
  then show "\<exists>pos. kvPos node (of_nat i) = Inr pos
           \<and> unat pos = 4 + 8 * length es + 2 * length es + record_start es i"
    using kp un urs by simp
qed

lemma record_start_all: "record_start es (length es) = length (concat (map record_bytes es))"
  by (simp add: record_start_def)

section \<open>The sample nodes, evaluated\<close>

lemma leaf2_nkeys: "nkeys leaf2 = Inr 2"
  by (simp add: leaf2_def nkeys_def slice_range_def Uint16_def backing_def len_def cap_def)

lemma leaf2_len: "len (data leaf2) = 40"
  by (simp add: leaf2_def len_def)

lemma leaf2_off1: "getOffset leaf2 1 = Inr 7"
  by (simp add: getOffset_def offsetPos_def leaf2_nkeys HEADER_def)
     (simp add: leaf2_def slice_from_def Uint16_def len_def)

lemma leaf2_off2: "getOffset leaf2 2 = Inr 14"
  by (simp add: getOffset_def offsetPos_def leaf2_nkeys HEADER_def)
     (simp add: leaf2_def slice_from_def Uint16_def len_def)

lemma empty_nkeys: "nkeys empty_node = Inr 0"
  by (simp add: empty_node_def nkeys_def slice_range_def Uint16_def backing_def len_def cap_def)

lemma big1_nkeys: "nkeys big1 = Inr 1"
  by (simp add: big1_def nkeys_def slice_range_def Uint16_def backing_def len_def cap_def)

lemma big1_off1: "getOffset big1 1 = Inr 4004"
  by (simp add: getOffset_def offsetPos_def big1_nkeys HEADER_def)
     (simp add: big1_def slice_from_def Uint16_def len_def)

lemma leaf2_cap: "cap (data leaf2) = 40"
  by (simp add: leaf2_def cap_def)

lemma leaf2_kvPos1: "kvPos leaf2 1 = Inr 31"
  by (simp add: kvPos_char[OF leaf2_nkeys] leaf2_off1 HEADER_def)

lemma leaf2_kvPos2: "kvPos leaf2 2 = Inr 38"
  by (simp add: kvPos_char[OF leaf2_nkeys] leaf2_off2 HEADER_def)

lemma leaf2_bytes:
  "bytes_at leaf2 12 8 = [2, 1, 0, 0, 0, 0, 0, 0]"
  "bytes_at leaf2 22 2 = [14, 0]"
  "bytes_at leaf2 31 2 = [2, 0]"
  "bytes_at leaf2 33 2 = [1, 0]"
  "bytes_at leaf2 35 2 = [98, 99]"
  "bytes_at leaf2 37 (Suc 0) = [122]"
  by (simp_all add: bytes_at_def leaf2_def backing_def)

lemma leaf2_laid_out: "laid_out leaf2 leaf2_entries"
  unfolding laid_out_def leaf2_region
  by (simp add: leaf2_entries_def bytes_at_def leaf2_def backing_def)

lemma leaf2_records: "length (concat (map record_bytes leaf2_entries)) = 14"
  by (simp add: leaf2_entries_def record_bytes_def)

lemma leaf2_count: "length leaf2_entries = 2"
  by (simp add: leaf2_entries_def)

section \<open>The claims\<close>

text \<open>
  Three hypotheses recur. The header can be read and holds the key count \<open>n\<close>
  (\<open>nkeys node = Inr n\<close>). The buffer holds what the header announces: the pointer array
  (\<open>4 + 8 * n\<close> bytes), the two tables (\<open>4 + 10 * n\<close> bytes) or the record in question.
  And the buffer is shorter than \<open>2^16\<close> bytes: the codec computes every position in
  \<open>uint16\<close>, and from \<open>2^16\<close> on these sums wrap. A page, of \<open>BTREE_PAGE_SIZE\<close> bytes, is
  well below that.
\<close>

lemma page_addressable: "len (data node) \<le> BTREE_PAGE_SIZE \<Longrightarrow> len (data node) < 65536"
  by (simp add: BTREE_PAGE_SIZE_def)

text \<open>
  Where the sums wrap: the position of pointer 8192 is that of pointer 0.
\<close>

lemma pointer_position_wraps: "HEADER + 8 * 8192 = HEADER + 8 * 0"
  by (simp add: HEADER_def)

text \<open>
  C1. Take a buffer whose bytes after the pointer array are the offset table and the
  records of the entries \<open>es\<close>, laid out as the page format has them, and that is long
  enough for the node. Writing the type and the key count with \<open>setHeader\<close> and the
  pointers with \<open>setPtr\<close> succeeds, and on the node so built \<open>btype\<close>, \<open>nkeys\<close>, \<open>getPtr\<close>,
  \<open>getKey\<close> and \<open>getVal\<close> return the type, the number of entries and, for every index,
  the pointer, the key and the value of the entry, byte for byte.
\<close>

theorem codec_round_trip:
  assumes "laid_out node es"
    and "4 + 8 * length es + length (kv_region es) \<le> len (data node)"
    and "len (data node) < 65536"
    and "i < length es"
  shows "\<exists>node'. build node bt es = Inr node'
       \<and> btype node' = Inr bt
       \<and> nkeys node' = Inr (of_nat (length es)) \<and> unat (of_nat (length es) :: uint16) = length es
       \<and> getPtr node' (of_nat i) = Inr (ptr (es ! i))
       \<and> (\<exists>k v. getKey node' (of_nat i) = Inr k \<and> elems k = key (es ! i)
              \<and> getVal node' (of_nat i) = Inr v \<and> elems v = val (es ! i))"
proof -
  let ?n = "length es" and ?B = "backing (data node)"
  let ?Rec = "concat (map record_bytes es)"
  let ?rest = "drop (length (kv_region es)) (drop (4 + 8 * ?n) ?B)"
  have lr: "length (kv_region es) = 2 * ?n + length ?Rec" by (rule length_kv_region)
  have fit8: "4 + 8 * ?n \<le> len (data node)" using assms(2) by simp
  obtain node' where b: "build node bt es = Inr node'"
    and l: "len (data node') = len (data node)"
    and img: "backing (data node') = bytes16 bt @ bytes16 (of_nat ?n)
        @ concat (map bytes64 (map ptr es)) @ drop (4 + 8 * ?n) ?B"
    using build_effect[OF fit8 assms(3), of bt] by blast
  have "take (length (kv_region es)) (drop (4 + 8 * ?n) ?B) = kv_region es"
    using assms(1) by (simp add: laid_out_def bytes_at_def)
  then have "drop (4 + 8 * ?n) ?B = kv_region es @ ?rest"
    by (metis append_take_drop_id)
  then have img': "backing (data node') = bytes16 bt @ bytes16 (of_nat ?n)
        @ concat (map bytes64 (map ptr es))
        @ concat (map (\<lambda>i. le_bytes 2 (record_start es i)) [1..<Suc ?n]) @ ?Rec @ ?rest"
    unfolding img by (simp add: kv_region_def del: upt_Suc)
  have fit: "4 + 10 * ?n + length ?Rec \<le> len (data node')" using assms(2) lr l by simp
  have small: "len (data node') < 65536" using assms(3) l by simp
  have "unat (of_nat ?n :: uint16) = ?n" using fit8 assms(3) by (intro unat16_of_nat) simp
  then show ?thesis using decode_image[OF img' fit small assms(4)] b by blast
qed

theorem codec_round_trip_witness:
  "laid_out blank2 leaf2_entries
     \<and> 4 + 8 * length leaf2_entries + length (kv_region leaf2_entries) \<le> len (data blank2)
     \<and> len (data blank2) < 65536 \<and> 1 < length leaf2_entries
     \<and> (\<exists>node'. build blank2 BNODE_LEAF leaf2_entries = Inr node'
           \<and> btype node' = Inr BNODE_LEAF \<and> nkeys node' = Inr 2
           \<and> getPtr node' 1 = Inr 258
           \<and> (\<exists>k v. getKey node' 1 = Inr k \<and> elems k = [98, 99]
                  \<and> getVal node' 1 = Inr v \<and> elems v = [122]))"
proof -
  have a: "laid_out blank2 leaf2_entries"
    unfolding laid_out_def leaf2_region
    by (simp add: leaf2_entries_def bytes_at_def blank2_def backing_def)
  have b: "4 + 8 * length leaf2_entries + length (kv_region leaf2_entries) \<le> len (data blank2)"
    unfolding leaf2_region by (simp add: leaf2_entries_def blank2_def len_def)
  have c: "len (data blank2) < 65536" by (simp add: blank2_def len_def)
  have d: "1 < length leaf2_entries" by (simp add: leaf2_entries_def)
  from codec_round_trip[OF a b c d, of BNODE_LEAF]
  have "\<exists>node'. build blank2 BNODE_LEAF leaf2_entries = Inr node'
           \<and> btype node' = Inr BNODE_LEAF \<and> nkeys node' = Inr 2
           \<and> getPtr node' 1 = Inr 258
           \<and> (\<exists>k v. getKey node' 1 = Inr k \<and> elems k = [98, 99]
                  \<and> getVal node' 1 = Inr v \<and> elems v = [122])"
    by (simp add: leaf2_entries_def)
  with a b c d show ?thesis by blast
qed

text \<open>
  C2. The page layout, on a node with key count \<open>n\<close> whose buffer holds the two tables.
  Every field is read little-endian (\<open>le_val\<close>): the type from bytes 0 and 1, the key
  count from bytes 2 and 3, pointer \<open>i\<close> from the eight bytes at \<open>4 + 8 * i\<close>, the offset
  of record \<open>i \<ge> 1\<close> from the two bytes at \<open>4 + 8 * n + 2 * (i - 1)\<close>. The records start
  at \<open>4 + 10 * n\<close>, and a record at \<open>pos\<close> is its key length in two bytes, its value
  length in two bytes, the key bytes, then the value bytes.
\<close>

theorem page_layout:
  assumes "nkeys node = Inr n" and "4 + 10 * unat n \<le> len (data node)"
    and "len (data node) < 65536"
  shows "(\<exists>t. btype node = Inr t \<and> unat t = le_val (bytes_at node 0 2))
       \<and> unat n = le_val (bytes_at node 2 2)
       \<and> (i < n \<longrightarrow>
            (\<exists>p. getPtr node i = Inr p \<and> unat p = le_val (bytes_at node (4 + 8 * unat i) 8)))
       \<and> (1 \<le> i \<and> i \<le> n \<longrightarrow>
            (\<exists>off. getOffset node i = Inr off
               \<and> unat off = le_val (bytes_at node (4 + 8 * unat n + 2 * (unat i - 1)) 2)))
       \<and> (\<exists>pos0. kvPos node 0 = Inr pos0 \<and> unat pos0 = 4 + 10 * unat n)
       \<and> (i < n \<and> kvPos node i = Inr pos \<and> klen = le_val (bytes_at node (unat pos) 2)
            \<and> vlen = le_val (bytes_at node (unat pos + 2) 2)
            \<and> unat pos + 4 + klen + vlen \<le> len (data node) \<longrightarrow>
            (\<exists>k v. getKey node i = Inr k \<and> getVal node i = Inr v
               \<and> elems k = bytes_at node (unat pos + 4) klen
               \<and> elems v = bytes_at node (unat pos + 4 + klen) vlen))"
proof (intro conjI impI)
  have "btype node = Inr (of_nat (le_val (bytes_at node 0 2)))"
    using assms(2) by (simp add: btype_char)
  then show "\<exists>t. btype node = Inr t \<and> unat t = le_val (bytes_at node 0 2)"
    using unat_le16 by blast
  from assms(1) have "of_nat (le_val (bytes_at node 2 2)) = n"
    by (auto simp: nkeys_char split: if_splits)
  then show "unat n = le_val (bytes_at node 2 2)" using unat_le16[of node 2] by simp
  have "kvPos node 0 = Inr (HEADER + 8 * n + 2 * n + 0)"
    by (simp add: kvPos_char[OF assms(1)] getOffset_char[OF assms(1)])
  moreover have "unat (HEADER + 8 * n + 2 * n + 0) = 4 + 10 * unat n + unat (0::uint16)"
    using assms(2,3) by (intro kv_pos) simp
  ultimately show "\<exists>pos0. kvPos node 0 = Inr pos0 \<and> unat pos0 = 4 + 10 * unat n" by simp
next
  assume "i < n"
  then have "getPtr node i = Inr (of_nat (le_val (bytes_at node (4 + 8 * unat i) 8)))"
    using assms(2,3) by (intro getPtr_ok[OF assms(1)]) simp_all
  then show "\<exists>p. getPtr node i = Inr p \<and> unat p = le_val (bytes_at node (4 + 8 * unat i) 8)"
    using unat_le64 by blast
next
  assume "1 \<le> i \<and> i \<le> n"
  then have "getOffset node i
      = Inr (of_nat (le_val (bytes_at node (4 + 8 * unat n + 2 * (unat i - 1)) 2)))"
    using assms(2,3) by (intro getOffset_ok[OF assms(1)]) simp_all
  then show "\<exists>off. getOffset node i = Inr off
      \<and> unat off = le_val (bytes_at node (4 + 8 * unat n + 2 * (unat i - 1)) 2)"
    using unat_le16 by blast
next
  assume h: "i < n \<and> kvPos node i = Inr pos \<and> klen = le_val (bytes_at node (unat pos) 2)
            \<and> vlen = le_val (bytes_at node (unat pos + 2) 2)
            \<and> unat pos + 4 + klen + vlen \<le> len (data node)"
  have lc: "len (data node) \<le> cap (data node)" by (rule len_le_cap)
  have k: "getKey node i = Inr (resplit klen (drop (unat pos + 4) (backing (data node))))"
    using h lc assms(3) by (intro getKey_ok[OF assms(1)]) simp_all
  have v: "getVal node i = Inr (resplit vlen (drop (unat pos + 4 + klen) (backing (data node))))"
    using h lc assms(3) by (intro getVal_ok[OF assms(1)]) simp_all
  show "\<exists>k v. getKey node i = Inr k \<and> getVal node i = Inr v
      \<and> elems k = bytes_at node (unat pos + 4) klen
      \<and> elems v = bytes_at node (unat pos + 4 + klen) vlen"
    using k v by (simp add: bytes_at_resplit)
qed

theorem page_layout_witness:
  "nkeys leaf2 = Inr 2 \<and> 4 + 10 * unat (2::uint16) \<le> len (data leaf2) \<and> len (data leaf2) < 65536
     \<and> (1::uint16) < 2 \<and> (1::uint16) \<le> 1 \<and> (1::uint16) \<le> 2 \<and> kvPos leaf2 1 = Inr 31
     \<and> 2 = le_val (bytes_at leaf2 (unat (31::uint16)) 2)
     \<and> 1 = le_val (bytes_at leaf2 (unat (31::uint16) + 2) 2)
     \<and> unat (31::uint16) + 4 + 2 + 1 \<le> len (data leaf2)
     \<and> (\<exists>t. btype leaf2 = Inr t \<and> unat t = le_val (bytes_at leaf2 0 2))
     \<and> (\<exists>p. getPtr leaf2 1 = Inr p \<and> unat p = le_val (bytes_at leaf2 12 8))
     \<and> (\<exists>off. getOffset leaf2 1 = Inr off \<and> unat off = le_val (bytes_at leaf2 20 2))
     \<and> (\<exists>pos0. kvPos leaf2 0 = Inr pos0 \<and> unat pos0 = 24)
     \<and> (\<exists>k v. getKey leaf2 1 = Inr k \<and> getVal leaf2 1 = Inr v
            \<and> elems k = bytes_at leaf2 35 2 \<and> elems v = bytes_at leaf2 37 1)"
proof -
  have a: "4 + 10 * unat (2::uint16) \<le> len (data leaf2)" by (simp add: leaf2_len)
  have b: "len (data leaf2) < 65536" by (simp add: leaf2_len)
  have i: "(1::uint16) < 2" "(1::uint16) \<le> 1 \<and> (1::uint16) \<le> 2" by simp_all
  have h: "(1::uint16) < 2 \<and> kvPos leaf2 1 = Inr 31
     \<and> 2 = le_val (bytes_at leaf2 (unat (31::uint16)) 2)
     \<and> 1 = le_val (bytes_at leaf2 (unat (31::uint16) + 2) 2)
     \<and> unat (31::uint16) + 4 + 2 + 1 \<le> len (data leaf2)"
    by (simp add: leaf2_kvPos1 leaf2_bytes leaf2_len)
  note t = page_layout[OF leaf2_nkeys a b, of 1 31 2 1]
  have c1: "\<exists>t. btype leaf2 = Inr t \<and> unat t = le_val (bytes_at leaf2 0 2)"
    using t by (rule conjunct1)
  have c3: "\<exists>p. getPtr leaf2 1 = Inr p \<and> unat p = le_val (bytes_at leaf2 12 8)"
    using t[THEN conjunct2, THEN conjunct2, THEN conjunct1, rule_format, OF i(1)] by simp
  have c4: "\<exists>off. getOffset leaf2 1 = Inr off \<and> unat off = le_val (bytes_at leaf2 20 2)"
    using t[THEN conjunct2, THEN conjunct2, THEN conjunct2, THEN conjunct1, rule_format, OF i(2)]
    by simp
  have c5: "\<exists>pos0. kvPos leaf2 0 = Inr pos0 \<and> unat pos0 = 24"
    using t[THEN conjunct2, THEN conjunct2, THEN conjunct2, THEN conjunct2, THEN conjunct1]
    by simp
  have c6: "\<exists>k v. getKey leaf2 1 = Inr k \<and> getVal leaf2 1 = Inr v
            \<and> elems k = bytes_at leaf2 35 2 \<and> elems v = bytes_at leaf2 37 1"
    using t[THEN conjunct2, THEN conjunct2, THEN conjunct2, THEN conjunct2, THEN conjunct2,
        rule_format, OF h] by simp
  show ?thesis using leaf2_nkeys a b i h c1 c3 c4 c5 c6 by blast
qed

text \<open>
  C3. The encoded size is the record position of the key count: \<open>nbytes\<close> is \<open>kvPos\<close> at
  \<open>nkeys\<close>, that is \<open>4 + 10 * nkeys + offset(nkeys)\<close> in \<open>uint16\<close> arithmetic (and as a
  number when the sum is below \<open>2^16\<close>). Offset 0 being 0, a node without keys needs no
  case of its own: its size is 4. And on a node that holds the entries \<open>es\<close> in the page
  format the size is the number of bytes the node occupies: 4 for the header, 8 for each
  pointer, 2 for each offset, and the bytes of all the records.
\<close>

theorem nbytes_eq_kvPos_nkeys:
  assumes "nkeys node = Inr n"
  shows "nbytes node = kvPos node n
       \<and> (\<forall>off. getOffset node n = Inr off \<longrightarrow>
              nbytes node = Inr (4 + 10 * n + off)
            \<and> (4 + 10 * unat n + unat off < 65536 \<longrightarrow>
                 unat (4 + 10 * n + off) = 4 + 10 * unat n + unat off))
       \<and> (n = 0 \<longrightarrow> nbytes node = Inr 4)
       \<and> (unat n = length es \<and> laid_out node es
            \<and> 4 + 8 * length es + length (kv_region es) \<le> len (data node)
            \<and> len (data node) < 65536 \<longrightarrow>
           (\<exists>sz. nbytes node = Inr sz
              \<and> unat sz = 4 + 8 * length es + 2 * length es
                           + length (concat (map record_bytes es))))"
proof (intro conjI allI impI)
  show eq: "nbytes node = kvPos node n" by (simp add: nbytes_def assms)
  show "nbytes node = Inr 4" if "n = 0"
    using that eq kvPos_char[OF assms, of 0] getOffset_char[OF assms, of 0]
    by (simp add: HEADER_def)
  show "\<exists>sz. nbytes node = Inr sz
      \<and> unat sz = 4 + 8 * length es + 2 * length es + length (concat (map record_bytes es))"
    if h: "unat n = length es \<and> laid_out node es
            \<and> 4 + 8 * length es + length (kv_region es) \<le> len (data node)
            \<and> len (data node) < 65536"
  proof -
    from h have un: "unat n = length es" and lo: "laid_out node es"
      and fit: "4 + 8 * length es + length (kv_region es) \<le> len (data node)"
      and small: "len (data node) < 65536" by simp_all
    have "of_nat (length es) = n" using un by (metis of_nat_unat ucast_id)
    then show ?thesis
      using laid_out_kvPos(2)[OF assms un lo fit small, of "length es"] eq
      by (simp add: record_start_all)
  qed
next
  fix off assume off: "getOffset node n = Inr off"
  show "nbytes node = Inr (4 + 10 * n + off)"
    using kvPos_char[OF assms, of n] off by (simp add: nbytes_def assms HEADER_def)
  have e: "HEADER + 8 * n + 2 * n + off = 4 + 10 * n + off" by (simp add: HEADER_def)
  show "unat (4 + 10 * n + off) = 4 + 10 * unat n + unat off"
    if "4 + 10 * unat n + unat off < 65536"
    using kv_pos[OF that] unfolding e .
qed

theorem nbytes_eq_kvPos_nkeys_witness:
  "nkeys leaf2 = Inr 2 \<and> getOffset leaf2 2 = Inr 14 \<and> nbytes leaf2 = kvPos leaf2 2
     \<and> nbytes leaf2 = Inr 38 \<and> nkeys empty_node = Inr 0 \<and> nbytes empty_node = Inr 4
     \<and> unat (2::uint16) = length leaf2_entries \<and> laid_out leaf2 leaf2_entries
     \<and> 4 + 8 * length leaf2_entries + length (kv_region leaf2_entries) \<le> len (data leaf2)
     \<and> len (data leaf2) < 65536
     \<and> (\<exists>sz. nbytes leaf2 = Inr sz \<and> unat sz = 4 + 8 * 2 + 2 * 2 + 14 \<and> sz = 38)"
proof -
  note t = nbytes_eq_kvPos_nkeys[OF leaf2_nkeys, of leaf2_entries]
  have a: "nbytes leaf2 = kvPos leaf2 2" using t by (rule conjunct1)
  have "nbytes leaf2 = Inr (4 + 10 * 2 + 14)"
    using t[THEN conjunct2, THEN conjunct1, rule_format, OF leaf2_off2] by (rule conjunct1)
  then have b: "nbytes leaf2 = Inr 38" by simp
  have c: "nbytes empty_node = Inr 4"
    using nbytes_eq_kvPos_nkeys[OF empty_nkeys, of "[]", THEN conjunct2, THEN conjunct2, THEN conjunct1]
    by simp
  have h: "unat (2::uint16) = length leaf2_entries \<and> laid_out leaf2 leaf2_entries
     \<and> 4 + 8 * length leaf2_entries + length (kv_region leaf2_entries) \<le> len (data leaf2)
     \<and> len (data leaf2) < 65536"
    unfolding leaf2_region using leaf2_laid_out by (simp add: leaf2_count leaf2_len)
  from t[THEN conjunct2, THEN conjunct2, THEN conjunct2, rule_format, OF h]
  obtain sz where sz0: "nbytes leaf2 = Inr sz"
      "unat sz = 4 + 8 * length leaf2_entries + 2 * length leaf2_entries
                   + length (concat (map record_bytes leaf2_entries))"
    by blast
  have sz: "nbytes leaf2 = Inr sz" "unat sz = 4 + 8 * 2 + 2 * 2 + 14"
    using sz0 unfolding leaf2_records leaf2_count by simp_all
  from sz(2) have "unat sz = unat (38 :: uint16)" by simp
  then have "sz = 38" by (simp only: word_unat_eq_iff)
  with sz have d: "\<exists>sz. nbytes leaf2 = Inr sz \<and> unat sz = 4 + 8 * 2 + 2 * 2 + 14 \<and> sz = 38"
    by blast
  show ?thesis using a b c d h leaf2_nkeys leaf2_off2 empty_nkeys by blast
qed

text \<open>
  C4. With key count \<open>n\<close>, \<open>kvPos\<close> at an index \<open>i \<le> n\<close> is \<open>4 + 8 * n + 2 * n\<close> plus the
  offset of \<open>i\<close>, in \<open>uint16\<close> arithmetic and, when the sum is below \<open>2^16\<close>, as a number.
  On a buffer that holds the two tables it returns for every such \<open>i\<close>, the key count
  included. At an index above the key count the assertion fails. On a node that holds the
  entries \<open>es\<close> in the page format, \<open>kvPos\<close> at \<open>i\<close> is where record \<open>i\<close> starts, \<open>kvPos\<close> at
  \<open>i + 1\<close> is where it ends, and \<open>kvPos\<close> at the key count is the position just past the
  last record: header, pointers, offsets and all the records lie before it.
\<close>

theorem kvPos_spec:
  assumes "nkeys node = Inr n"
  shows "(i \<le> n \<longrightarrow>
            kvPos node i = andThen (getOffset node i) (\<lambda>off. Inr (4 + 8 * n + 2 * n + off)))
       \<and> (i \<le> n \<and> 4 + 10 * unat n \<le> len (data node) \<and> len (data node) < 65536 \<longrightarrow>
            (\<exists>off. getOffset node i = Inr off \<and> kvPos node i = Inr (4 + 8 * n + 2 * n + off)
               \<and> (4 + 10 * unat n + unat off < 65536 \<longrightarrow>
                    unat (4 + 8 * n + 2 * n + off) = 4 + 8 * unat n + 2 * unat n + unat off)))
       \<and> (n < i \<longrightarrow> kvPos node i = Inl AssertionFailed)
       \<and> (unat n = length es \<and> laid_out node es
            \<and> 4 + 8 * length es + length (kv_region es) \<le> len (data node)
            \<and> len (data node) < 65536 \<longrightarrow>
           (i \<le> n \<longrightarrow>
              (\<exists>pos. kvPos node i = Inr pos
                 \<and> unat pos = 4 + 8 * length es + 2 * length es + record_start es (unat i)))
         \<and> (i < n \<longrightarrow>
              (\<exists>pos pos'. kvPos node i = Inr pos \<and> kvPos node (i + 1) = Inr pos'
                 \<and> unat pos' = unat pos + length (record_bytes (es ! unat i))))
         \<and> (\<exists>past. kvPos node n = Inr past
                 \<and> unat past = 4 + 8 * length es + 2 * length es
                              + length (concat (map record_bytes es))))"
proof (intro conjI impI)
  show "kvPos node i = andThen (getOffset node i) (\<lambda>off. Inr (4 + 8 * n + 2 * n + off))"
    if "i \<le> n" using that by (simp add: kvPos_char[OF assms] HEADER_def)
  show "kvPos node i = Inl AssertionFailed" if "n < i"
  proof -
    from that have "\<not> i \<le> n" by simp
    then show ?thesis by (simp add: kvPos_char[OF assms])
  qed
next
  assume h: "i \<le> n \<and> 4 + 10 * unat n \<le> len (data node) \<and> len (data node) < 65536"
  then obtain off where off: "getOffset node i = Inr off"
      "kvPos node i = Inr (HEADER + 8 * n + 2 * n + off)"
    using kvPos_ok[OF assms, of i] by blast
  have "unat (HEADER + 8 * n + 2 * n + off) = 4 + 8 * unat n + 2 * unat n + unat off"
    if "4 + 10 * unat n + unat off < 65536"
    using kv_pos[OF that] by simp
  then show "\<exists>off. getOffset node i = Inr off \<and> kvPos node i = Inr (4 + 8 * n + 2 * n + off)
       \<and> (4 + 10 * unat n + unat off < 65536 \<longrightarrow>
            unat (4 + 8 * n + 2 * n + off) = 4 + 8 * unat n + 2 * unat n + unat off)"
    using off unfolding HEADER_def by blast
next
  assume h: "unat n = length es \<and> laid_out node es
            \<and> 4 + 8 * length es + length (kv_region es) \<le> len (data node)
            \<and> len (data node) < 65536"
  then have un: "unat n = length es" and lo: "laid_out node es"
    and fit: "4 + 8 * length es + length (kv_region es) \<le> len (data node)"
    and small: "len (data node) < 65536" by simp_all
  note k = laid_out_kvPos(2)[OF assms un lo fit small]
  have ofu: "of_nat (unat j) = j" for j :: uint16 by (metis of_nat_unat ucast_id)
  show "\<exists>pos. kvPos node i = Inr pos
      \<and> unat pos = 4 + 8 * length es + 2 * length es + record_start es (unat i)"
    if "i \<le> n"
  proof -
    from that have "unat i \<le> length es" using un by (simp add: word_le_nat_alt)
    from k[OF this] show ?thesis by (simp add: ofu)
  qed
  show "\<exists>past. kvPos node n = Inr past
      \<and> unat past = 4 + 8 * length es + 2 * length es + length (concat (map record_bytes es))"
    using k[of "length es"] ofu[of n] un by (simp add: record_start_all)
  show "\<exists>pos pos'. kvPos node i = Inr pos \<and> kvPos node (i + 1) = Inr pos'
      \<and> unat pos' = unat pos + length (record_bytes (es ! unat i))"
    if lt: "i < n"
  proof -
    have ui: "unat i < length es" using lt un by (simp add: word_less_nat_alt)
    have n16: "unat n < 65536" using fit small un by simp
    have u1: "unat (i + 1) = Suc (unat i)"
      using ui un n16 unat16_add[of i 1] by simp
    obtain pos where p: "kvPos node i = Inr pos"
        "unat pos = 4 + 8 * length es + 2 * length es + record_start es (unat i)"
      using k[of "unat i"] ui by (auto simp: ofu)
    have e1: "of_nat (Suc (unat i)) = i + 1" using ofu[of "i + 1"] unfolding u1 .
    have "Suc (unat i) \<le> length es" using ui by simp
    from k[OF this] obtain pos' where p': "kvPos node (i + 1) = Inr pos'"
        "unat pos' = 4 + 8 * length es + 2 * length es + record_start es (Suc (unat i))"
      unfolding e1 by blast
    show ?thesis using p p' record_start_Suc[OF ui] by simp
  qed
qed

theorem kvPos_spec_witness:
  "nkeys leaf2 = Inr 2 \<and> (2::uint16) \<le> 2 \<and> 4 + 10 * unat (2::uint16) \<le> len (data leaf2)
     \<and> len (data leaf2) < 65536 \<and> (2::uint16) < 3
     \<and> (\<exists>off. getOffset leaf2 2 = Inr off \<and> kvPos leaf2 2 = Inr (4 + 8 * 2 + 2 * 2 + off))
     \<and> kvPos leaf2 3 = Inl AssertionFailed
     \<and> unat (2::uint16) = length leaf2_entries \<and> laid_out leaf2 leaf2_entries
     \<and> 4 + 8 * length leaf2_entries + length (kv_region leaf2_entries) \<le> len (data leaf2)
     \<and> (1::uint16) < 2
     \<and> (\<exists>pos pos'. kvPos leaf2 1 = Inr pos \<and> kvPos leaf2 (1 + 1) = Inr pos'
           \<and> unat pos = 31 \<and> unat pos' = 38)
     \<and> kvPos leaf2 2 = Inr 38"
proof -
  have h: "(2::uint16) \<le> 2 \<and> 4 + 10 * unat (2::uint16) \<le> len (data leaf2)
      \<and> len (data leaf2) < 65536" by (simp add: leaf2_len)
  have l: "(2::uint16) < 3" by simp
  from kvPos_spec[OF leaf2_nkeys, of 2, THEN conjunct2, THEN conjunct1, rule_format, OF h]
  have a: "\<exists>off. getOffset leaf2 2 = Inr off \<and> kvPos leaf2 2 = Inr (4 + 8 * 2 + 2 * 2 + off)"
    by blast
  from kvPos_spec[OF leaf2_nkeys, of 3, THEN conjunct2, THEN conjunct2, THEN conjunct1,
      rule_format, OF l]
  have b: "kvPos leaf2 3 = Inl AssertionFailed" .
  have g: "unat (2::uint16) = length leaf2_entries \<and> laid_out leaf2 leaf2_entries
     \<and> 4 + 8 * length leaf2_entries + length (kv_region leaf2_entries) \<le> len (data leaf2)
     \<and> len (data leaf2) < 65536"
    unfolding leaf2_region using leaf2_laid_out by (simp add: leaf2_count leaf2_len)
  note t = kvPos_spec[OF leaf2_nkeys, of 1 leaf2_entries, THEN conjunct2, THEN conjunct2,
      THEN conjunct2, rule_format, OF g]
  have i: "(1::uint16) \<le> 2" "(1::uint16) < 2" by simp_all
  have rs1: "record_start leaf2_entries (unat (1::uint16)) = 7"
    by (simp add: record_start_def leaf2_entries_def record_bytes_def)
  have rb1: "length (record_bytes (leaf2_entries ! unat (1::uint16))) = 7"
    by (simp add: leaf2_entries_def record_bytes_def)
  from t[THEN conjunct1, rule_format, OF i(1)]
  obtain p where p0: "kvPos leaf2 1 = Inr p"
      "unat p = 4 + 8 * length leaf2_entries + 2 * length leaf2_entries
                  + record_start leaf2_entries (unat (1::uint16))"
    by blast
  have p: "kvPos leaf2 1 = Inr p" "unat p = 31"
    using p0 unfolding rs1 leaf2_count by simp_all
  from t[THEN conjunct2, THEN conjunct1, rule_format, OF i(2)]
  obtain q q' where q: "kvPos leaf2 1 = Inr q" "kvPos leaf2 (1 + 1) = Inr q'"
      "unat q' = unat q + length (record_bytes (leaf2_entries ! unat (1::uint16)))"
    by blast
  have "q = p" using q(1) p(1) by simp
  then have "unat q' = 38" using q(3) p(2) unfolding rb1 by simp
  then have c: "\<exists>pos pos'. kvPos leaf2 1 = Inr pos \<and> kvPos leaf2 (1 + 1) = Inr pos'
           \<and> unat pos = 31 \<and> unat pos' = 38"
    using p q(2) by blast
  from t[THEN conjunct2, THEN conjunct2]
  obtain e where e0: "kvPos leaf2 2 = Inr e"
      "unat e = 4 + 8 * length leaf2_entries + 2 * length leaf2_entries
                  + length (concat (map record_bytes leaf2_entries))"
    by blast
  have e: "kvPos leaf2 2 = Inr e" "unat e = 38"
    using e0 unfolding leaf2_records leaf2_count by simp_all
  from e(2) have "unat e = unat (38 :: uint16)" by simp
  then have "e = 38" by (simp only: word_unat_eq_iff)
  with e have d: "kvPos leaf2 2 = Inr 38" by simp
  show ?thesis using leaf2_nkeys h l a b g i(2) c d by blast
qed

text \<open>
  C5. With key count \<open>n\<close> and \<open>i < n\<close>, let \<open>pos\<close> be \<open>kvPos\<close> at \<open>i\<close> and \<open>klen\<close>, \<open>vlen\<close>
  the little-endian values of the two bytes at \<open>pos\<close> and at \<open>pos + 2\<close>. When the record
  lies inside the buffer, \<open>getKey\<close> returns the \<open>klen\<close> bytes at \<open>pos + 4\<close> and \<open>getVal\<close>
  the \<open>vlen\<close> bytes after them. At an index that is not below the key count both fail
  their assertion.
\<close>

theorem getKey_getVal_spec:
  assumes "nkeys node = Inr n"
  shows "(n \<le> i \<longrightarrow> getKey node i = Inl AssertionFailed \<and> getVal node i = Inl AssertionFailed)
       \<and> (i < n \<and> kvPos node i = Inr pos \<and> klen = le_val (bytes_at node (unat pos) 2)
            \<and> vlen = le_val (bytes_at node (unat pos + 2) 2)
            \<and> unat pos + 4 + klen + vlen \<le> len (data node) \<and> len (data node) < 65536 \<longrightarrow>
           (\<exists>k v. getKey node i = Inr k \<and> getVal node i = Inr v
              \<and> elems k = bytes_at node (unat pos + 4) klen \<and> length (elems k) = klen
              \<and> elems v = bytes_at node (unat pos + 4 + klen) vlen \<and> length (elems v) = vlen))"
proof (intro conjI impI)
  assume "n \<le> i"
  then have "\<not> i < n" by simp
  then show "getKey node i = Inl AssertionFailed" "getVal node i = Inl AssertionFailed"
    by (simp_all add: getKey_char[OF assms] getVal_char[OF assms])
next
  assume h: "i < n \<and> kvPos node i = Inr pos \<and> klen = le_val (bytes_at node (unat pos) 2)
            \<and> vlen = le_val (bytes_at node (unat pos + 2) 2)
            \<and> unat pos + 4 + klen + vlen \<le> len (data node) \<and> len (data node) < 65536"
  have lc: "len (data node) \<le> cap (data node)" by (rule len_le_cap)
  have k: "getKey node i = Inr (resplit klen (drop (unat pos + 4) (backing (data node))))"
    using h lc by (intro getKey_ok[OF assms]) simp_all
  have v: "getVal node i = Inr (resplit vlen (drop (unat pos + 4 + klen) (backing (data node))))"
    using h lc by (intro getVal_ok[OF assms]) simp_all
  from h have fit: "unat pos + 4 + klen + vlen \<le> len (data node)" by simp
  have "klen \<le> length (drop (unat pos + 4) (backing (data node)))"
    using fit lc by (simp add: cap_backing)
  then have lk: "length (bytes_at node (unat pos + 4) klen) = klen"
    unfolding bytes_at_def by simp
  have "vlen \<le> length (drop (unat pos + 4 + klen) (backing (data node)))"
    using fit lc by (simp add: cap_backing)
  then have lv: "length (bytes_at node (unat pos + 4 + klen) vlen) = vlen"
    unfolding bytes_at_def by simp
  show "\<exists>k v. getKey node i = Inr k \<and> getVal node i = Inr v
      \<and> elems k = bytes_at node (unat pos + 4) klen \<and> length (elems k) = klen
      \<and> elems v = bytes_at node (unat pos + 4 + klen) vlen \<and> length (elems v) = vlen"
    using k v lk lv by (simp add: bytes_at_resplit)
qed

theorem getKey_getVal_spec_witness:
  "nkeys leaf2 = Inr 2 \<and> (1::uint16) < 2 \<and> kvPos leaf2 1 = Inr 31
     \<and> 2 = le_val (bytes_at leaf2 (unat (31::uint16)) 2)
     \<and> 1 = le_val (bytes_at leaf2 (unat (31::uint16) + 2) 2)
     \<and> unat (31::uint16) + 4 + 2 + 1 \<le> len (data leaf2) \<and> len (data leaf2) < 65536
     \<and> (\<exists>k v. getKey leaf2 1 = Inr k \<and> getVal leaf2 1 = Inr v
            \<and> elems k = [98, 99] \<and> elems v = [122])
     \<and> (2::uint16) \<le> 2 \<and> getKey leaf2 2 = Inl AssertionFailed
     \<and> getVal leaf2 2 = Inl AssertionFailed"
proof -
  have h: "(1::uint16) < 2 \<and> kvPos leaf2 1 = Inr 31
     \<and> 2 = le_val (bytes_at leaf2 (unat (31::uint16)) 2)
     \<and> 1 = le_val (bytes_at leaf2 (unat (31::uint16) + 2) 2)
     \<and> unat (31::uint16) + 4 + 2 + 1 \<le> len (data leaf2) \<and> len (data leaf2) < 65536"
    by (simp add: leaf2_kvPos1 leaf2_bytes leaf2_len)
  from getKey_getVal_spec[OF leaf2_nkeys, of 1 31 2 1, THEN conjunct2, rule_format, OF h]
  have a: "\<exists>k v. getKey leaf2 1 = Inr k \<and> getVal leaf2 1 = Inr v
            \<and> elems k = [98, 99] \<and> elems v = [122]"
    by (auto simp: leaf2_bytes)
  have l: "(2::uint16) \<le> 2" by simp
  from getKey_getVal_spec[OF leaf2_nkeys, of 2, THEN conjunct1, rule_format, OF l]
  have b: "getKey leaf2 2 = Inl AssertionFailed \<and> getVal leaf2 2 = Inl AssertionFailed" .
  show ?thesis using leaf2_nkeys h a l b by blast
qed

text \<open>
  C6. With key count \<open>n\<close>, \<open>getPtr\<close> and \<open>setPtr\<close> fail their assertion exactly at the
  indices \<open>i \<ge> n\<close>. For \<open>i < n\<close>, on a buffer that holds the pointer array, the eight bytes
  at \<open>4 + 8 * i\<close> lie inside the buffer; \<open>getPtr\<close> returns their little-endian value, and
  \<open>setPtr\<close> stores the pointer there and leaves every byte before and after them as it
  was.
\<close>

theorem getPtr_setPtr_bounds:
  assumes "nkeys node = Inr n"
  shows "((getPtr node i = Inl AssertionFailed) = (n \<le> i))
       \<and> ((setPtr node i v = Inl AssertionFailed) = (n \<le> i))
       \<and> (i < n \<and> 4 + 8 * unat n \<le> len (data node) \<and> len (data node) < 65536 \<longrightarrow>
            4 + 8 * unat i + 8 \<le> len (data node)
          \<and> (\<exists>p. getPtr node i = Inr p \<and> unat p = le_val (bytes_at node (4 + 8 * unat i) 8))
          \<and> (\<exists>node'. setPtr node i v = Inr node'
                \<and> len (data node') = len (data node) \<and> cap (data node') = cap (data node)
                \<and> le_val (bytes_at node' (4 + 8 * unat i) 8) = unat v
                \<and> take (4 + 8 * unat i) (backing (data node'))
                     = take (4 + 8 * unat i) (backing (data node))
                \<and> drop (4 + 8 * unat i + 8) (backing (data node'))
                     = drop (4 + 8 * unat i + 8) (backing (data node))))"
proof (intro conjI impI)
  show "(getPtr node i = Inl AssertionFailed) = (n \<le> i)" by (rule getPtr_assert_iff[OF assms])
  show "(setPtr node i v = Inl AssertionFailed) = (n \<le> i)" by (rule setPtr_assert_iff[OF assms])
next
  assume h: "i < n \<and> 4 + 8 * unat n \<le> len (data node) \<and> len (data node) < 65536"
  then have lt: "unat i < unat n" by (simp add: word16_less_unat)
  show inb: "4 + 8 * unat i + 8 \<le> len (data node)" using h lt by simp
  have "getPtr node i = Inr (of_nat (le_val (bytes_at node (4 + 8 * unat i) 8)))"
    using h by (intro getPtr_ok[OF assms]) simp_all
  then show "\<exists>p. getPtr node i = Inr p \<and> unat p = le_val (bytes_at node (4 + 8 * unat i) 8)"
    using unat_le64 by blast
  let ?p = "4 + 8 * unat i" and ?B = "backing (data node)"
  from h obtain node' where s: "setPtr node i v = Inr node'"
      and b: "backing (data node') = take ?p ?B @ bytes64 v @ drop (?p + 8) ?B"
      and l: "len (data node') = len (data node)"
    using setPtr_effect[OF assms, of i v] by blast
  have pB: "?p + 8 \<le> length ?B" using inb len_le_cap[of "data node"] by (simp add: cap_backing)
  have c: "cap (data node') = cap (data node)" using pB by (simp add: cap_backing b)
  have at: "bytes_at node' ?p 8 = bytes64 v" using pB by (simp add: bytes_at_def b)
  have t: "take ?p (backing (data node')) = take ?p ?B" using pB by (simp add: b)
  have d: "drop (?p + 8) (backing (data node')) = drop (?p + 8) ?B" using pB by (simp add: b)
  show "\<exists>node'. setPtr node i v = Inr node'
      \<and> len (data node') = len (data node) \<and> cap (data node') = cap (data node)
      \<and> le_val (bytes_at node' ?p 8) = unat v
      \<and> take ?p (backing (data node')) = take ?p ?B
      \<and> drop (?p + 8) (backing (data node')) = drop (?p + 8) ?B"
    using s l c at t d by (simp add: le_val_bytes64)
qed

theorem getPtr_setPtr_bounds_witness:
  "nkeys leaf2 = Inr 2 \<and> (1::uint16) < 2 \<and> 4 + 8 * unat (2::uint16) \<le> len (data leaf2)
     \<and> len (data leaf2) < 65536
     \<and> (\<exists>p. getPtr leaf2 1 = Inr p \<and> unat p = 258)
     \<and> (\<exists>node'. setPtr leaf2 1 513 = Inr node' \<and> le_val (bytes_at node' 12 8) = 513
           \<and> take 12 (backing (data node')) = take 12 (backing (data leaf2))
           \<and> drop 20 (backing (data node')) = drop 20 (backing (data leaf2)))
     \<and> getPtr leaf2 2 = Inl AssertionFailed \<and> setPtr leaf2 2 513 = Inl AssertionFailed"
proof -
  have h: "(1::uint16) < 2 \<and> 4 + 8 * unat (2::uint16) \<le> len (data leaf2)
     \<and> len (data leaf2) < 65536" by (simp add: leaf2_len)
  note t = getPtr_setPtr_bounds[OF leaf2_nkeys, of 1 513, THEN conjunct2, THEN conjunct2,
      rule_format, OF h]
  have a: "\<exists>p. getPtr leaf2 1 = Inr p \<and> unat p = 258"
    using t[THEN conjunct2, THEN conjunct1] by (simp add: leaf2_bytes)
  have b: "\<exists>node'. setPtr leaf2 1 513 = Inr node' \<and> le_val (bytes_at node' 12 8) = 513
           \<and> take 12 (backing (data node')) = take 12 (backing (data leaf2))
           \<and> drop 20 (backing (data node')) = drop 20 (backing (data leaf2))"
    using t[THEN conjunct2, THEN conjunct2] by auto
  have c: "getPtr leaf2 2 = Inl AssertionFailed"
    using getPtr_setPtr_bounds[OF leaf2_nkeys, of 2 513, THEN conjunct1] by simp
  have d: "setPtr leaf2 2 513 = Inl AssertionFailed"
    using getPtr_setPtr_bounds[OF leaf2_nkeys, of 2 513, THEN conjunct2, THEN conjunct1] by simp
  show ?thesis using leaf2_nkeys h a b c d by blast
qed

text \<open>
  C7. \<open>getOffset\<close> at index 0 is 0 on every node, whatever its bytes and however short its
  buffer. At an index \<open>i\<close> from 1 to the key count \<open>n\<close> it is the little-endian value of
  the two bytes at position \<open>4 + 8 * n + 2 * (i - 1)\<close>.
\<close>

theorem getOffset_spec:
  "getOffset node 0 = Inr 0
   \<and> (nkeys node = Inr n \<and> 1 \<le> i \<and> i \<le> n
        \<and> 4 + 10 * unat n \<le> len (data node) \<and> len (data node) < 65536 \<longrightarrow>
       (\<exists>off. getOffset node i = Inr off
          \<and> unat off = le_val (bytes_at node (4 + 8 * unat n + 2 * (unat i - 1)) 2)))"
proof (intro conjI impI)
  show "getOffset node 0 = Inr 0" by (simp add: getOffset_def)
next
  assume h: "nkeys node = Inr n \<and> 1 \<le> i \<and> i \<le> n
        \<and> 4 + 10 * unat n \<le> len (data node) \<and> len (data node) < 65536"
  then have "getOffset node i
      = Inr (of_nat (le_val (bytes_at node (4 + 8 * unat n + 2 * (unat i - 1)) 2)))"
    by (intro getOffset_ok) simp_all
  then show "\<exists>off. getOffset node i = Inr off
      \<and> unat off = le_val (bytes_at node (4 + 8 * unat n + 2 * (unat i - 1)) 2)"
    using unat_le16 by blast
qed

theorem getOffset_spec_witness:
  "nkeys leaf2 = Inr 2 \<and> (1::uint16) \<le> 2 \<and> (2::uint16) \<le> 2
     \<and> 4 + 10 * unat (2::uint16) \<le> len (data leaf2) \<and> len (data leaf2) < 65536
     \<and> getOffset leaf2 0 = Inr 0
     \<and> (\<exists>off. getOffset leaf2 2 = Inr off \<and> unat off = le_val (bytes_at leaf2 22 2))
     \<and> le_val (bytes_at leaf2 22 2) = 14"
proof -
  have h: "nkeys leaf2 = Inr 2 \<and> (1::uint16) \<le> 2 \<and> (2::uint16) \<le> 2
     \<and> 4 + 10 * unat (2::uint16) \<le> len (data leaf2) \<and> len (data leaf2) < 65536"
    by (simp add: leaf2_nkeys leaf2_len)
  from getOffset_spec[of leaf2 2 2, THEN conjunct2, rule_format, OF h]
  have a: "\<exists>off. getOffset leaf2 2 = Inr off \<and> unat off = le_val (bytes_at leaf2 22 2)"
    by simp
  have b: "getOffset leaf2 0 = Inr 0" using getOffset_spec[of leaf2] by (rule conjunct1)
  have c: "le_val (bytes_at leaf2 22 2) = 14" by (simp add: leaf2_bytes)
  show ?thesis using h a b c by blast
qed

text \<open>
  C9. A node whose single record has a key of at most 1000 and a value of at most 3000
  bytes fits a page: its size is \<open>4 + 8 + 2 + 4\<close> plus the two lengths, at most 4018, and
  4018 does not exceed the page size 4096.
\<close>

theorem max_entry_fits_page:
  assumes "nkeys node = Inr 1"
    and "getOffset node 1 = Inr off"
    and "unat off = 4 + kl + vl"
    and "kl \<le> BTREE_MAX_KEY_SIZE" and "vl \<le> BTREE_MAX_VAL_SIZE"
  shows "\<exists>sz. nbytes node = Inr sz \<and> unat sz = 4 + 8 + 2 + 4 + kl + vl
           \<and> unat sz \<le> 4 + 8 + 2 + 4 + BTREE_MAX_KEY_SIZE + BTREE_MAX_VAL_SIZE
           \<and> 4 + 8 + 2 + 4 + BTREE_MAX_KEY_SIZE + BTREE_MAX_VAL_SIZE = 4018
           \<and> 4018 \<le> BTREE_PAGE_SIZE"
proof -
  have sz: "nbytes node = Inr (HEADER + 8 * 1 + 2 * 1 + off)"
    using kvPos_char[OF assms(1), of 1] assms(2) by (simp add: nbytes_def assms(1))
  have "4 + 10 * unat (1::uint16) + unat off < 65536"
    using assms(3-5) by (simp add: BTREE_MAX_KEY_SIZE_def BTREE_MAX_VAL_SIZE_def)
  from kv_pos[OF this] have "unat (HEADER + 8 * 1 + 2 * 1 + off) = 14 + unat off" by simp
  with sz assms(3-5) show ?thesis
    by (simp add: BTREE_MAX_KEY_SIZE_def BTREE_MAX_VAL_SIZE_def BTREE_PAGE_SIZE_def)
qed

theorem max_entry_fits_page_witness:
  "nkeys big1 = Inr 1 \<and> getOffset big1 1 = Inr 4004 \<and> unat (4004 :: uint16) = 4 + 1000 + 3000
     \<and> 1000 \<le> BTREE_MAX_KEY_SIZE \<and> 3000 \<le> BTREE_MAX_VAL_SIZE
     \<and> (\<exists>sz. nbytes big1 = Inr sz \<and> unat sz = 4018 \<and> unat sz \<le> BTREE_PAGE_SIZE)"
proof -
  have a: "unat (4004 :: uint16) = 4 + 1000 + 3000" by simp
  have b: "(1000::nat) \<le> BTREE_MAX_KEY_SIZE" by (simp add: BTREE_MAX_KEY_SIZE_def)
  have c: "(3000::nat) \<le> BTREE_MAX_VAL_SIZE" by (simp add: BTREE_MAX_VAL_SIZE_def)
  from max_entry_fits_page[OF big1_nkeys big1_off1 a b c]
  obtain sz where "nbytes big1 = Inr sz" "unat sz = 4018" "unat sz \<le> BTREE_PAGE_SIZE"
    by (auto simp: BTREE_PAGE_SIZE_def)
  with big1_nkeys big1_off1 a b c show ?thesis by blast
qed

text \<open>
  C10. \<open>setHeader\<close> stores the type in bytes 0 and 1 and the key count in bytes 2 and 3
  and leaves every byte from 4 on as it was. \<open>setPtr\<close> at \<open>i\<close> below the key count \<open>n\<close>
  stores the pointer in the eight bytes at \<open>4 + 8 * i\<close> and leaves every byte before and
  after them as it was, so the header and everything from \<open>4 + 8 * n\<close> on, which is the
  offset table and the records, stay the same. Neither changes the length or the capacity.
\<close>

theorem setters_frame:
  "(4 \<le> cap (data node) \<longrightarrow>
      (\<exists>node'. setHeader node bt nk = Inr node'
         \<and> len (data node') = len (data node) \<and> cap (data node') = cap (data node)
         \<and> le_val (bytes_at node' 0 2) = unat bt \<and> le_val (bytes_at node' 2 2) = unat nk
         \<and> drop 4 (backing (data node')) = drop 4 (backing (data node))))
   \<and> (nkeys node = Inr n \<and> i < n \<and> 4 + 8 * unat n \<le> len (data node)
        \<and> len (data node) < 65536 \<longrightarrow>
      (\<exists>node'. setPtr node i v = Inr node'
         \<and> len (data node') = len (data node) \<and> cap (data node') = cap (data node)
         \<and> le_val (bytes_at node' (4 + 8 * unat i) 8) = unat v
         \<and> take (4 + 8 * unat i) (backing (data node'))
              = take (4 + 8 * unat i) (backing (data node))
         \<and> drop (4 + 8 * unat i + 8) (backing (data node'))
              = drop (4 + 8 * unat i + 8) (backing (data node))
         \<and> drop (4 + 8 * unat n) (backing (data node'))
              = drop (4 + 8 * unat n) (backing (data node))
         \<and> nkeys node' = Inr n))"
proof (intro conjI impI)
  assume c: "4 \<le> cap (data node)"
  then obtain node' where s: "setHeader node bt nk = Inr node'"
    using setHeader_effect[of node bt nk] by blast
  from setHeader_reads[OF s c] s
  show "\<exists>node'. setHeader node bt nk = Inr node'
         \<and> len (data node') = len (data node) \<and> cap (data node') = cap (data node)
         \<and> le_val (bytes_at node' 0 2) = unat bt \<and> le_val (bytes_at node' 2 2) = unat nk
         \<and> drop 4 (backing (data node')) = drop 4 (backing (data node))"
    by blast
next
  assume h: "nkeys node = Inr n \<and> i < n \<and> 4 + 8 * unat n \<le> len (data node)
      \<and> len (data node) < 65536"
  then have nk: "nkeys node = Inr n" and i: "i < n"
    and fit: "4 + 8 * unat n \<le> len (data node)" and small: "len (data node) < 65536"
    by simp_all
  obtain node' where s: "setPtr node i v = Inr node'"
    using setPtr_effect[OF nk i fit small, of v] by blast
  note r = setPtr_reads[OF nk i fit small s]
  have lt: "unat i < unat n" using i by (rule word16_less_unat)
  have a: "le_val (bytes_at node' (4 + 8 * unat i) 8) = unat v"
    by (simp add: r(4) le_val_bytes64)
  have d1: "drop (4 + 8 * unat i + 8) (backing (data node'))
      = drop (4 + 8 * unat i + 8) (backing (data node))" by (rule r(6)) simp
  have d2: "drop (4 + 8 * unat n) (backing (data node')) = drop (4 + 8 * unat n) (backing (data node))"
    using lt by (intro r(6)) simp
  show "\<exists>node'. setPtr node i v = Inr node'
         \<and> len (data node') = len (data node) \<and> cap (data node') = cap (data node)
         \<and> le_val (bytes_at node' (4 + 8 * unat i) 8) = unat v
         \<and> take (4 + 8 * unat i) (backing (data node'))
              = take (4 + 8 * unat i) (backing (data node))
         \<and> drop (4 + 8 * unat i + 8) (backing (data node'))
              = drop (4 + 8 * unat i + 8) (backing (data node))
         \<and> drop (4 + 8 * unat n) (backing (data node'))
              = drop (4 + 8 * unat n) (backing (data node))
         \<and> nkeys node' = Inr n"
    using s r(2) r(3) a r(5) d1 d2 r(7) by blast
qed

theorem setters_frame_witness:
  "4 \<le> cap (data leaf2) \<and> nkeys leaf2 = Inr 2 \<and> (0::uint16) < 2
     \<and> 4 + 8 * unat (2::uint16) \<le> len (data leaf2) \<and> len (data leaf2) < 65536
     \<and> (\<exists>node'. setHeader leaf2 1 2 = Inr node' \<and> le_val (bytes_at node' 0 2) = 1
           \<and> le_val (bytes_at node' 2 2) = 2
           \<and> drop 4 (backing (data node')) = drop 4 (backing (data leaf2)))
     \<and> (\<exists>node'. setPtr leaf2 0 7 = Inr node' \<and> le_val (bytes_at node' 4 8) = 7
           \<and> take 4 (backing (data node')) = take 4 (backing (data leaf2))
           \<and> drop 12 (backing (data node')) = drop 12 (backing (data leaf2))
           \<and> drop 20 (backing (data node')) = drop 20 (backing (data leaf2)))"
proof -
  have c: "4 \<le> cap (data leaf2)" by (simp add: leaf2_cap)
  have h: "nkeys leaf2 = Inr 2 \<and> (0::uint16) < 2
     \<and> 4 + 8 * unat (2::uint16) \<le> len (data leaf2) \<and> len (data leaf2) < 65536"
    by (simp add: leaf2_nkeys leaf2_len)
  have a: "\<exists>node'. setHeader leaf2 1 2 = Inr node' \<and> le_val (bytes_at node' 0 2) = 1
           \<and> le_val (bytes_at node' 2 2) = 2
           \<and> drop 4 (backing (data node')) = drop 4 (backing (data leaf2))"
    using setters_frame[of leaf2 1 2, THEN conjunct1, rule_format, OF c] by auto
  have b: "\<exists>node'. setPtr leaf2 0 7 = Inr node' \<and> le_val (bytes_at node' 4 8) = 7
           \<and> take 4 (backing (data node')) = take 4 (backing (data leaf2))
           \<and> drop 12 (backing (data node')) = drop 12 (backing (data leaf2))
           \<and> drop 20 (backing (data node')) = drop 20 (backing (data leaf2))"
    using setters_frame[of leaf2 _ _ 2 0 7, THEN conjunct2, rule_format, OF h] by auto
  show ?thesis using c h a b by blast
qed

end
